theory Spec2Isabelle
  imports Main "HOL-Library.Sublist" "HOL-Library.AList"
begin

section \<open>JavaScript strings\<close>

text \<open>
  The rendering pipeline of \<^verbatim>\<open>src/utils/markdown.ts\<close> is a chain of text-to-text
  passes over JavaScript strings. A JavaScript string is a sequence of UTF-16 code
  units; the model is \<^typ>\<open>string\<close> (a list of 8-bit characters), so it covers the
  strings whose code units lie in U+0000..U+00FF. Character classes are the
  ECMAScript ones cut down to that range.
\<close>

definition bsl :: char where
  \<open>bsl = CHR 0x5C\<close>

definition btick :: char where
  \<open>btick = CHR 0x60\<close>

definition isLineTerm :: \<open>char \<Rightarrow> bool\<close> where
  \<open>isLineTerm c \<longleftrightarrow> c = CHR 0x0A \<or> c = CHR 0x0D\<close>

definition isSpace :: \<open>char \<Rightarrow> bool\<close> where
  \<open>isSpace c \<longleftrightarrow> c = CHR 0x09 \<or> c = CHR 0x0A \<or> c = CHR 0x0B \<or> c = CHR 0x0C
     \<or> c = CHR 0x0D \<or> c = CHR 0x20 \<or> c = CHR 0xA0\<close>

definition isDigit :: \<open>char \<Rightarrow> bool\<close> where
  \<open>isDigit c \<longleftrightarrow> (let n = (of_char c :: nat) in 48 \<le> n \<and> n \<le> 57)\<close>

definition isLower :: \<open>char \<Rightarrow> bool\<close> where
  \<open>isLower c \<longleftrightarrow> (let n = (of_char c :: nat) in 97 \<le> n \<and> n \<le> 122)\<close>

definition isUpper :: \<open>char \<Rightarrow> bool\<close> where
  \<open>isUpper c \<longleftrightarrow> (let n = (of_char c :: nat) in 65 \<le> n \<and> n \<le> 90)\<close>

definition isWordCh :: \<open>char \<Rightarrow> bool\<close> where
  \<open>isWordCh c \<longleftrightarrow> isDigit c \<or> isUpper c \<or> isLower c \<or> c = CHR ''_''\<close>

definition toLowerCh :: \<open>char \<Rightarrow> char\<close> where
  \<open>toLowerCh c = (let n = (of_char c :: nat) in
     if (65 \<le> n \<and> n \<le> 90) \<or> (192 \<le> n \<and> n \<le> 222 \<and> n \<noteq> 215) then char_of (n + 32) else c)\<close>

definition toLowerCase :: \<open>string \<Rightarrow> string\<close> where
  \<open>toLowerCase s = map toLowerCh s\<close>

text \<open>
  \<^verbatim>\<open>toUpperCase\<close> is only applied to the first character of a directive name,
  which the directive pattern restricts to \<^verbatim>\<open>[\w:-]\<close>; on those characters it is
  the ASCII mapping below (it also covers the Latin-1 letters whose capital is
  again in Latin-1).
\<close>

definition toUpperCh :: \<open>char \<Rightarrow> char\<close> where
  \<open>toUpperCh c = (let n = (of_char c :: nat) in
     if (97 \<le> n \<and> n \<le> 122) \<or> (224 \<le> n \<and> n \<le> 254 \<and> n \<noteq> 247) then char_of (n - 32) else c)\<close>

definition toUpperCase :: \<open>string \<Rightarrow> string\<close> where
  \<open>toUpperCase s = map toUpperCh s\<close>

definition trimStart :: \<open>string \<Rightarrow> string\<close> where
  \<open>trimStart s = dropWhile isSpace s\<close>

definition trim :: \<open>string \<Rightarrow> string\<close> where
  \<open>trim s = rev (dropWhile isSpace (rev (dropWhile isSpace s)))\<close>

definition startsWith :: \<open>string \<Rightarrow> string \<Rightarrow> bool\<close> where
  \<open>startsWith s p \<longleftrightarrow> prefix p s\<close>

definition endsWith :: \<open>string \<Rightarrow> string \<Rightarrow> bool\<close> where
  \<open>endsWith s p \<longleftrightarrow> suffix p s\<close>

text \<open>\<^verbatim>\<open>s.indexOf(p)\<close>: the first position where \<open>p\<close> occurs, \<open>None\<close> for JavaScript's -1.\<close>

fun indexOf :: \<open>string \<Rightarrow> string \<Rightarrow> nat option\<close> where
  \<open>indexOf [] p = (if p = [] then Some 0 else None)\<close>
| \<open>indexOf (x # xs) p = (if prefix p (x # xs) then Some 0 else map_option Suc (indexOf xs p))\<close>

definition strIncludes :: \<open>string \<Rightarrow> string \<Rightarrow> bool\<close> where
  \<open>strIncludes s p \<longleftrightarrow> indexOf s p \<noteq> None\<close>

text \<open>\<^verbatim>\<open>s.replace(p, r)\<close> with a string pattern: the first occurrence only. Every call
  site passes a constant replacement without \<^verbatim>\<open>$\<close>.\<close>

definition replaceStr :: \<open>string \<Rightarrow> string \<Rightarrow> string \<Rightarrow> string\<close> where
  \<open>replaceStr s p r = (case indexOf s p of
      None \<Rightarrow> s
    | Some i \<Rightarrow> take i s @ r @ drop (i + length p) s)\<close>

text \<open>\<^verbatim>\<open>s.split(c)\<close> for a one-character separator.\<close>

fun splitCh :: \<open>char \<Rightarrow> string \<Rightarrow> string list\<close> where
  \<open>splitCh c [] = [[]]\<close>
| \<open>splitCh c (x # xs) =
     (if x = c then [] # splitCh c xs
      else (case splitCh c xs of [] \<Rightarrow> [[x]] | l # ls \<Rightarrow> (x # l) # ls))\<close>

text \<open>\<^verbatim>\<open>s.split(sep)\<close> for a non-empty separator string: \<open>k\<close> counts the characters
  of a separator still to skip, \<open>cur\<close> is the current piece, reversed.\<close>

fun splitAcc :: \<open>string \<Rightarrow> nat \<Rightarrow> string \<Rightarrow> string \<Rightarrow> string list\<close> where
  \<open>splitAcc sep k cur [] = [rev cur]\<close>
| \<open>splitAcc sep (Suc k) cur (x # xs) = splitAcc sep k cur xs\<close>
| \<open>splitAcc sep 0 cur (x # xs) =
     (if prefix sep (x # xs) then rev cur # splitAcc sep (length sep - 1) [] xs
      else splitAcc sep 0 (x # cur) xs)\<close>

definition splitStr :: \<open>string \<Rightarrow> string \<Rightarrow> string list\<close> where
  \<open>splitStr sep s = splitAcc sep 0 [] s\<close>

text \<open>\<^verbatim>\<open>xs.join(sep)\<close>.\<close>

fun joinWith :: \<open>string \<Rightarrow> string list \<Rightarrow> string\<close> where
  \<open>joinWith sep [] = []\<close>
| \<open>joinWith sep [x] = x\<close>
| \<open>joinWith sep (x # y # ys) = x @ sep @ joinWith sep (y # ys)\<close>

definition nl :: string where
  \<open>nl = [CHR 0x0A]\<close>

section \<open>Regular expressions\<close>

text \<open>
  The passes are written with JavaScript regular expressions, so the model has
  a backtracking matcher with the ECMAScript priorities: alternatives left to
  right, greedy and lazy repetition, numbered capture groups, the anchors with and
  without the \<^verbatim>\<open>m\<close> flag. Every pattern of the source is transcribed as a value of
  \<open>re\<close>. A match state is the text before the position (reversed), the text from
  the position on, and the captures; the matcher is in continuation-passing
  style, so that a failure of the rest of the pattern backtracks into the
  repetition before it.
\<close>

type_synonym caps = \<open>nat \<Rightarrow> string option\<close>

datatype re =
    Chr char
  | Cls \<open>char \<Rightarrow> bool\<close>
  | Eps
  | Seq re re
  | Alt re re
  | Star re
  | StarL re
  | Grp nat re
  | Bos
  | Eos
  | BolM
  | EolM

type_synonym mres = \<open>(string \<times> caps) option\<close>

type_synonym mcont = \<open>string \<Rightarrow> string \<Rightarrow> caps \<Rightarrow> mres\<close>

text \<open>Greedy repetition: one more iteration first (it must consume a character, as
  ECMAScript rejects an empty iteration), the continuation otherwise. The
  counter is the length of the remaining text, which bounds the iterations.\<close>

primrec starG :: \<open>nat \<Rightarrow> (string \<Rightarrow> string \<Rightarrow> caps \<Rightarrow> mcont \<Rightarrow> mres) \<Rightarrow> string \<Rightarrow> string \<Rightarrow> caps \<Rightarrow> mcont \<Rightarrow> mres\<close> where
  \<open>starG 0 f b s c k = k b s c\<close>
| \<open>starG (Suc n) f b s c k =
     (case f b s c (\<lambda>b' s' c'. if length s' < length s then starG n f b' s' c' k else None) of
        Some r \<Rightarrow> Some r
      | None \<Rightarrow> k b s c)\<close>

text \<open>Lazy repetition: the continuation first, one more iteration otherwise.\<close>

primrec starL :: \<open>nat \<Rightarrow> (string \<Rightarrow> string \<Rightarrow> caps \<Rightarrow> mcont \<Rightarrow> mres) \<Rightarrow> string \<Rightarrow> string \<Rightarrow> caps \<Rightarrow> mcont \<Rightarrow> mres\<close> where
  \<open>starL 0 f b s c k = k b s c\<close>
| \<open>starL (Suc n) f b s c k =
     (case k b s c of
        Some r \<Rightarrow> Some r
      | None \<Rightarrow> f b s c (\<lambda>b' s' c'. if length s' < length s then starL n f b' s' c' k else None))\<close>

primrec rm :: \<open>re \<Rightarrow> string \<Rightarrow> string \<Rightarrow> caps \<Rightarrow> mcont \<Rightarrow> mres\<close> where
  \<open>rm (Chr x) b s c k = (case s of [] \<Rightarrow> None | y # ys \<Rightarrow> if y = x then k (y # b) ys c else None)\<close>
| \<open>rm (Cls P) b s c k = (case s of [] \<Rightarrow> None | y # ys \<Rightarrow> if P y then k (y # b) ys c else None)\<close>
| \<open>rm Eps b s c k = k b s c\<close>
| \<open>rm (Seq r1 r2) b s c k = rm r1 b s c (\<lambda>b' s' c'. rm r2 b' s' c' k)\<close>
| \<open>rm (Alt r1 r2) b s c k = (case rm r1 b s c k of Some r \<Rightarrow> Some r | None \<Rightarrow> rm r2 b s c k)\<close>
| \<open>rm (Star r) b s c k = starG (length s) (rm r) b s c k\<close>
| \<open>rm (StarL r) b s c k = starL (length s) (rm r) b s c k\<close>
| \<open>rm (Grp n r) b s c k =
     rm r b s c (\<lambda>b' s' c'. k b' s' (c'(n \<mapsto> take (length s - length s') s)))\<close>
| \<open>rm Bos b s c k = (if b = [] then k b s c else None)\<close>
| \<open>rm Eos b s c k = (if s = [] then k b s c else None)\<close>
| \<open>rm BolM b s c k = (if b = [] \<or> isLineTerm (hd b) then k b s c else None)\<close>
| \<open>rm EolM b s c k = (if s = [] \<or> isLineTerm (hd s) then k b s c else None)\<close>

fun Lit :: \<open>string \<Rightarrow> re\<close> where
  \<open>Lit [] = Eps\<close>
| \<open>Lit [x] = Chr x\<close>
| \<open>Lit (x # y # ys) = Seq (Chr x) (Lit (y # ys))\<close>

fun seqs :: \<open>re list \<Rightarrow> re\<close> where
  \<open>seqs [] = Eps\<close>
| \<open>seqs [r] = r\<close>
| \<open>seqs (r # q # rs) = Seq r (seqs (q # rs))\<close>

definition Plus :: \<open>re \<Rightarrow> re\<close> where
  \<open>Plus r = Seq r (Star r)\<close>

definition Opt :: \<open>re \<Rightarrow> re\<close> where
  \<open>Opt r = Alt r Eps\<close>

definition AnyCh :: re where
  \<open>AnyCh = Cls (\<lambda>_. True)\<close>

definition Dot :: re where
  \<open>Dot = Cls (\<lambda>c. \<not> isLineTerm c)\<close>

definition NotCh :: \<open>char \<Rightarrow> re\<close> where
  \<open>NotCh x = Cls (\<lambda>c. c \<noteq> x)\<close>

text \<open>A match of \<open>r\<close> at the current position: its length and its captures.\<close>

definition reMatchAt :: \<open>re \<Rightarrow> string \<Rightarrow> string \<Rightarrow> (nat \<times> caps) option\<close> where
  \<open>reMatchAt r b s =
     map_option (\<lambda>(s', c). (length s - length s', c))
       (rm r b s (\<lambda>_. None) (\<lambda>b' s' c'. Some (s', c')))\<close>

text \<open>\<^verbatim>\<open>s.match(r)\<close> and \<^verbatim>\<open>r.test(s)\<close> without the \<^verbatim>\<open>g\<close> flag: the leftmost match, as
  its start, its length and its captures.\<close>

fun reSearch :: \<open>re \<Rightarrow> string \<Rightarrow> string \<Rightarrow> (nat \<times> nat \<times> caps) option\<close> where
  \<open>reSearch r b [] = map_option (\<lambda>(n, c). (0, n, c)) (reMatchAt r b [])\<close>
| \<open>reSearch r b (x # xs) =
     (case reMatchAt r b (x # xs) of
        Some (n, c) \<Rightarrow> Some (0, n, c)
      | None \<Rightarrow> map_option (\<lambda>(i, n, c). (Suc i, n, c)) (reSearch r (x # b) xs))\<close>

definition reExec :: \<open>re \<Rightarrow> string \<Rightarrow> caps option\<close> where
  \<open>reExec r s = map_option (\<lambda>(i, n, c). c) (reSearch r [] s)\<close>

definition reTest :: \<open>re \<Rightarrow> string \<Rightarrow> bool\<close> where
  \<open>reTest r s \<longleftrightarrow> reSearch r [] s \<noteq> None\<close>

text \<open>
  \<^verbatim>\<open>s.replace(r, callback)\<close> with the \<^verbatim>\<open>g\<close> flag. The matches are found from left
  to right, the search resuming after each match, and the callback is called
  once per match, in that order; it receives the text before the match
  (reversed), the matched text, the text after it and the captures, and it may
  update the state \<open>st\<close> that the enclosing function closes over (the equation
  counter and registry). \<open>k\<close> counts the characters of the current match still
  to skip.
\<close>

type_synonym 's replcb = \<open>string \<Rightarrow> string \<Rightarrow> string \<Rightarrow> caps \<Rightarrow> 's \<Rightarrow> string \<times> 's\<close>

fun replaceG :: \<open>re \<Rightarrow> 's replcb \<Rightarrow> string \<Rightarrow> nat \<Rightarrow> string \<Rightarrow> 's \<Rightarrow> string \<times> 's\<close> where
  \<open>replaceG r cb b k [] st =
     (if k = 0 then
        (case reMatchAt r b [] of
           None \<Rightarrow> ([], st)
         | Some (n, c) \<Rightarrow> cb b [] [] c st)
      else ([], st))\<close>
| \<open>replaceG r cb b (Suc k) (x # xs) st = replaceG r cb (x # b) k xs st\<close>
| \<open>replaceG r cb b 0 (x # xs) st =
     (case reMatchAt r b (x # xs) of
        None \<Rightarrow> (case replaceG r cb (x # b) 0 xs st of (out, st') \<Rightarrow> (x # out, st'))
      | Some (n, c) \<Rightarrow>
          (case cb b (take n (x # xs)) (drop n (x # xs)) c st of (rep, st1) \<Rightarrow>
             if n = 0 then
               (case replaceG r cb (x # b) 0 xs st1 of (out, st2) \<Rightarrow> (rep @ x # out, st2))
             else
               (case replaceG r cb (x # b) (n - 1) xs st1 of (out, st2) \<Rightarrow> (rep @ out, st2))))\<close>

definition replaceAllSt :: \<open>re \<Rightarrow> (string \<Rightarrow> caps \<Rightarrow> 's \<Rightarrow> string \<times> 's) \<Rightarrow> string \<Rightarrow> 's \<Rightarrow> string \<times> 's\<close> where
  \<open>replaceAllSt r f s st = replaceG r (\<lambda>b m a. f m) [] 0 s st\<close>

definition replaceAllFn :: \<open>re \<Rightarrow> (string \<Rightarrow> caps \<Rightarrow> string) \<Rightarrow> string \<Rightarrow> string\<close> where
  \<open>replaceAllFn r f s = fst (replaceG r (\<lambda>b m a c st. (f m c, st)) [] 0 s ())\<close>

text \<open>\<^verbatim>\<open>s.replace(r, callback)\<close> without the \<^verbatim>\<open>g\<close> flag: the leftmost match only.\<close>

definition replaceFirstSt :: \<open>re \<Rightarrow> (string \<Rightarrow> caps \<Rightarrow> 's \<Rightarrow> string \<times> 's) \<Rightarrow> string \<Rightarrow> 's \<Rightarrow> string \<times> 's\<close> where
  \<open>replaceFirstSt r f s st =
     (case reSearch r [] s of
        None \<Rightarrow> (s, st)
      | Some (i, n, c) \<Rightarrow>
          (case f (take n (drop i s)) c st of (rep, st') \<Rightarrow>
             (take i s @ rep @ drop (i + n) s, st')))\<close>

definition replaceFirstFn :: \<open>re \<Rightarrow> (string \<Rightarrow> caps \<Rightarrow> string) \<Rightarrow> string \<Rightarrow> string\<close> where
  \<open>replaceFirstFn r f s = fst (replaceFirstSt r (\<lambda>m c st. (f m c, st)) s ())\<close>

text \<open>
  A replacement given as a string is a template: \<^verbatim>\<open>$$\<close> is a dollar sign, \<^verbatim>\<open>$&\<close> the
  match, \<^verbatim>\<open>$`\<close> the text before it, \<^verbatim>\<open>$'\<close> the text after it, \<^verbatim>\<open>$n\<close> and \<^verbatim>\<open>$nn\<close> the
  capture of that number when the pattern has that many groups (\<open>ng\<close>); any
  other \<^verbatim>\<open>$\<close> stands for itself.
\<close>

definition digitVal :: \<open>char \<Rightarrow> nat\<close> where
  \<open>digitVal c = of_char c - 48\<close>

definition capText :: \<open>caps \<Rightarrow> nat \<Rightarrow> string\<close> where
  \<open>capText c n = (case c n of None \<Rightarrow> [] | Some t \<Rightarrow> t)\<close>

fun expandTemplate :: \<open>nat \<Rightarrow> string \<Rightarrow> string \<Rightarrow> string \<Rightarrow> string \<Rightarrow> caps \<Rightarrow> string\<close> where
  \<open>expandTemplate ng [] b m a c = []\<close>
| \<open>expandTemplate ng [x] b m a c = [x]\<close>
| \<open>expandTemplate ng (x # y # t) b m a c =
     (if x \<noteq> CHR ''$'' then x # expandTemplate ng (y # t) b m a c
      else if y = CHR ''$'' then CHR ''$'' # expandTemplate ng t b m a c
      else if y = CHR ''&'' then m @ expandTemplate ng t b m a c
      else if y = btick then rev b @ expandTemplate ng t b m a c
      else if y = CHR 0x27 then a @ expandTemplate ng t b m a c
      else if isDigit y then
        (case t of
           z # t' \<Rightarrow>
             if isDigit z \<and> 1 \<le> 10 * digitVal y + digitVal z \<and> 10 * digitVal y + digitVal z \<le> ng
             then capText c (10 * digitVal y + digitVal z) @ expandTemplate ng t' b m a c
             else if 1 \<le> digitVal y \<and> digitVal y \<le> ng
             then capText c (digitVal y) @ expandTemplate ng t b m a c
             else x # expandTemplate ng (y # t) b m a c
         | [] \<Rightarrow>
             if 1 \<le> digitVal y \<and> digitVal y \<le> ng then capText c (digitVal y)
             else [x, y])
      else x # expandTemplate ng (y # t) b m a c)\<close>

definition replaceAllT :: \<open>re \<Rightarrow> nat \<Rightarrow> string \<Rightarrow> string \<Rightarrow> string\<close> where
  \<open>replaceAllT r ng tmpl s =
     fst (replaceG r (\<lambda>b m a c st. (expandTemplate ng tmpl b m a c, st)) [] 0 s ())\<close>

definition replaceFirstT :: \<open>re \<Rightarrow> nat \<Rightarrow> string \<Rightarrow> string \<Rightarrow> string\<close> where
  \<open>replaceFirstT r ng tmpl s =
     (case reSearch r [] s of
        None \<Rightarrow> s
      | Some (i, n, c) \<Rightarrow>
          take i s @ expandTemplate ng tmpl (rev (take i s)) (take n (drop i s)) (drop (i + n) s) c
            @ drop (i + n) s)\<close>

section \<open>The role engine: \<^verbatim>\<open>parseMystRoles\<close>\<close>

text \<open>The common role pattern \<^verbatim>\<open>\{name\}`([^`]+)`\<close>, for one name or for an
  alternation of names \<^verbatim>\<open>(?:a|b)\<close>.\<close>

fun alts :: \<open>re list \<Rightarrow> re\<close> where
  \<open>alts [] = Eps\<close>
| \<open>alts [r] = r\<close>
| \<open>alts (r # q # rs) = Alt r (alts (q # rs))\<close>

definition reRole :: \<open>string list \<Rightarrow> re\<close> where
  \<open>reRole names =
     seqs [Chr CHR ''{'', alts (map Lit names), Lit ''}`'', Grp 1 (Plus (NotCh btick)), Chr btick]\<close>

text \<open>\<^verbatim>\<open>/\{button\}`([^<`]+)(?:\s*<([^>]+)>)?`/g\<close>\<close>

definition reButton :: re where
  \<open>reButton =
     seqs [Lit ''{button}`'', Grp 1 (Plus (Cls (\<lambda>c. c \<noteq> CHR ''<'' \<and> c \<noteq> btick))),
           Opt (seqs [Star (Cls isSpace), Chr CHR ''<'', Grp 2 (Plus (NotCh CHR ''>'')), Chr CHR ''>'']),
           Chr btick]\<close>

text \<open>\<^verbatim>\<open>/\{term\}`([^`<]+)(?:\s*<([^>]+)>)?`/g\<close>\<close>

definition reTerm :: re where
  \<open>reTerm =
     seqs [Lit ''{term}`'', Grp 1 (Plus (Cls (\<lambda>c. c \<noteq> btick \<and> c \<noteq> CHR ''<''))),
           Opt (seqs [Star (Cls isSpace), Chr CHR ''<'', Grp 2 (Plus (NotCh CHR ''>'')), Chr CHR ''>'']),
           Chr btick]\<close>

text \<open>\<^verbatim>\<open>/\{abbr\}`([^`(]+)(?:\s*\(([^)]+)\))?`/g\<close>\<close>

definition reAbbr :: re where
  \<open>reAbbr =
     seqs [Lit ''{abbr}`'', Grp 1 (Plus (Cls (\<lambda>c. c \<noteq> btick \<and> c \<noteq> CHR ''(''))),
           Opt (seqs [Star (Cls isSpace), Chr CHR ''('', Grp 2 (Plus (NotCh CHR '')'')), Chr CHR '')'']),
           Chr btick]\<close>

text \<open>\<^verbatim>\<open>/\{abbr\}`([^(]+)\(([^)]+)\)`/g\<close>\<close>

definition reAbbr2 :: re where
  \<open>reAbbr2 =
     seqs [Lit ''{abbr}`'', Grp 1 (Plus (NotCh CHR ''('')), Chr CHR ''('',
           Grp 2 (Plus (NotCh CHR '')'')), Lit '')`'']\<close>

text \<open>\<^verbatim>\<open>/[^a-z0-9]+/g\<close>, of the glossary anchors.\<close>

definition reNonSlug :: re where
  \<open>reNonSlug = Plus (Cls (\<lambda>c. \<not> isLower c \<and> \<not> isDigit c))\<close>

definition slugify :: \<open>string \<Rightarrow> string\<close> where
  \<open>slugify s = replaceAllT reNonSlug 0 ''-'' (toLowerCase s)\<close>

text \<open>The callbacks. A capture that did not take part in the match is
  \<^verbatim>\<open>undefined\<close>, which is false in a condition, as the empty string is.\<close>

definition buttonCb :: \<open>string \<Rightarrow> caps \<Rightarrow> string\<close> where
  \<open>buttonCb m c =
     (let text = capText c 1;
          href = (if capText c 2 \<noteq> [] then capText c 2 else ''#'')
      in ''<a href="'' @ href @ ''" class="btn" role="button">'' @ trim text @ ''</a>'')\<close>

definition termCb :: \<open>string \<Rightarrow> caps \<Rightarrow> string\<close> where
  \<open>termCb m c =
     (let displayText = trim (capText c 1);
          termTarget = (if capText c 2 \<noteq> [] then trim (capText c 2) else displayText);
          ident = ''term-'' @ slugify termTarget
      in ''<a href="#'' @ ident @ ''" class="myst-term" title="Term: '' @ termTarget @ ''">''
           @ displayText @ ''</a>'')\<close>

definition abbrCb :: \<open>string \<Rightarrow> caps \<Rightarrow> string\<close> where
  \<open>abbrCb m c =
     (let titleAttr = (if capText c 2 \<noteq> [] then '' title="'' @ trim (capText c 2) @ ''"'' else [])
      in ''<abbr'' @ titleAttr @ ''>'' @ trim (capText c 1) @ ''</abbr>'')\<close>

definition abbr2Cb :: \<open>string \<Rightarrow> caps \<Rightarrow> string\<close> where
  \<open>abbr2Cb m c = ''<abbr title="'' @ trim (capText c 2) @ ''">'' @ trim (capText c 1) @ ''</abbr>''\<close>

text \<open>The callback of the \<^verbatim>\<open>(?:kbd|keyboard)\<close> pattern: split on \<^verbatim>\<open>+\<close>, one key element
  per piece, joined with \<^verbatim>\<open> + \<close>.\<close>

definition keyboardCb :: \<open>string \<Rightarrow> caps \<Rightarrow> string\<close> where
  \<open>keyboardCb m c =
     (let keys = map (\<lambda>k. ''<kbd>'' @ trim k @ ''</kbd>'') (splitCh CHR ''+'' (capText c 1))
      in joinWith '' + '' keys)\<close>

definition wrapCb :: \<open>string \<Rightarrow> string \<Rightarrow> string \<Rightarrow> caps \<Rightarrow> string\<close> where
  \<open>wrapCb pre post m c = pre @ capText c 1 @ post\<close>

text \<open>The sixteen substitutions of \<^verbatim>\<open>parseMystRoles\<close>, in the order of the source.\<close>

definition parseMystRoles :: \<open>string \<Rightarrow> string\<close> where
  \<open>parseMystRoles content =
     (let result = content;
          result = replaceAllFn reButton buttonCb result;
          result = replaceAllFn reTerm termCb result;
          result = replaceAllT (reRole [''sub'']) 1 ''<sub>$1</sub>'' result;
          result = replaceAllT (reRole [''sup'']) 1 ''<sup>$1</sup>'' result;
          result = replaceAllT (reRole [''kbd'']) 1 ''<kbd>$1</kbd>'' result;
          result = replaceAllFn reAbbr abbrCb result;
          result = replaceAllT (reRole [''del'']) 1 ''<del>$1</del>'' result;
          result = replaceAllT (reRole [''u'']) 1 ''<u>$1</u>'' result;
          result = replaceAllT (reRole [''sc'']) 1 ''<span style="font-variant: small-caps;">$1</span>'' result;
          result = replaceAllFn (reRole [''sub'', ''subscript'']) (wrapCb ''<sub>'' ''</sub>'') result;
          result = replaceAllFn (reRole [''sup'', ''superscript'']) (wrapCb ''<sup>'' ''</sup>'') result;
          result = replaceAllFn (reRole [''kbd'', ''keyboard'']) keyboardCb result;
          result = replaceAllFn reAbbr2 abbr2Cb result;
          result = replaceAllFn (reRole [''del'', ''strike'']) (wrapCb ''<del>'' ''</del>'') result;
          result = replaceAllFn (reRole [''u'', ''underline'']) (wrapCb ''<u>'' ''</u>'') result;
          result = replaceAllFn (reRole [''sc'', ''smallcaps'']) (wrapCb ''<span class="smallcaps">'' ''</span>'') result
      in result)\<close>

section \<open>Numbers in text\<close>

text \<open>The decimal text of a natural number, as a template literal prints a counter.\<close>

fun showNat :: \<open>nat \<Rightarrow> string\<close> where
  \<open>showNat n = (if n < 10 then [char_of (48 + n)] else showNat (n div 10) @ [char_of (48 + n mod 10)])\<close>

declare showNat.simps [simp del]

definition showInt :: \<open>int \<Rightarrow> string\<close> where
  \<open>showInt i = (if i < 0 then ''-'' @ showNat (nat (- i)) else showNat (nat i))\<close>

text \<open>
  \<^verbatim>\<open>parseInt(s)\<close> with no radix: leading white space, a sign, a \<^verbatim>\<open>0x\<close> prefix for base
  16, then the longest run of digits; \<open>None\<close> is \<^verbatim>\<open>NaN\<close>. The value is exact as long as
  it is below \<open>2^53\<close> (beyond that JavaScript rounds to a double).
\<close>

definition radixVal :: \<open>char \<Rightarrow> nat\<close> where
  \<open>radixVal c = (if isDigit c then of_char c - 48
     else if isLower c then of_char c - 87
     else if isUpper c then of_char c - 55
     else 99)\<close>

definition parseInt :: \<open>string \<Rightarrow> int option\<close> where
  \<open>parseInt s =
     (let t = trimStart s;
          neg = (t \<noteq> [] \<and> hd t = CHR ''-'');
          t1 = (if t \<noteq> [] \<and> (hd t = CHR ''-'' \<or> hd t = CHR ''+'') then tl t else t);
          hex = (prefix ''0x'' t1 \<or> prefix ''0X'' t1);
          radix = (if hex then 16 else 10);
          t2 = (if hex then drop 2 t1 else t1);
          ds = takeWhile (\<lambda>c. radixVal c < radix) t2
      in if ds = [] then None
         else Some ((if neg then - 1 else 1) * int (foldl (\<lambda>a d. a * radix + radixVal d) 0 ds)))\<close>

section \<open>Directive output: \<^verbatim>\<open>generateDirectiveHtml\<close>\<close>

text \<open>\<^verbatim>\<open>escapeHtml\<close>: five global substitutions, the ampersand first.\<close>

definition escapeHtml :: \<open>string \<Rightarrow> string\<close> where
  \<open>escapeHtml text =
     replaceAllT (Chr CHR 0x27) 0 ''&#039;''
       (replaceAllT (Chr CHR 0x22) 0 ''&quot;''
         (replaceAllT (Chr CHR ''>'') 0 ''&gt;''
           (replaceAllT (Chr CHR ''<'') 0 ''&lt;''
             (replaceAllT (Chr CHR ''&'') 0 ''&amp;'' text))))\<close>

text \<open>\<^verbatim>\<open>optionLines.find(o => o.startsWith(key))\<close> and
  \<^verbatim>\<open>opt.replace(/^key\s*/, '').trim()\<close>, the way every option value is read.\<close>

definition findOpt :: \<open>string \<Rightarrow> string list \<Rightarrow> string option\<close> where
  \<open>findOpt key optionLines = find (\<lambda>ol. startsWith ol key) optionLines\<close>

definition optValue :: \<open>string \<Rightarrow> string \<Rightarrow> string\<close> where
  \<open>optValue key ol = trim (replaceFirstT (seqs [Bos, Lit key, Star (Cls isSpace)]) 0 [] ol)\<close>

definition getOpt :: \<open>string \<Rightarrow> string list \<Rightarrow> string \<Rightarrow> string\<close> where
  \<open>getOpt key optionLines dflt =
     (case findOpt key optionLines of None \<Rightarrow> dflt | Some ol \<Rightarrow> optValue key ol)\<close>

definition hasOpt :: \<open>string \<Rightarrow> string list \<Rightarrow> bool\<close> where
  \<open>hasOpt key optionLines \<longleftrightarrow> (\<exists>ol \<in> set optionLines. startsWith ol key)\<close>

definition idAttrOf :: \<open>string \<Rightarrow> string\<close> where
  \<open>idAttrOf label = (if label \<noteq> [] then '' id="'' @ label @ ''"'' else [])\<close>

definition orElse :: \<open>string \<Rightarrow> string \<Rightarrow> string\<close> where
  \<open>orElse s dflt = (if s \<noteq> [] then s else dflt)\<close>

definition capitalize :: \<open>string \<Rightarrow> string\<close> where
  \<open>capitalize name = toUpperCase (take 1 name) @ drop 1 name\<close>

definition dropdownHtml :: \<open>string \<Rightarrow> string list \<Rightarrow> string \<Rightarrow> string\<close> where
  \<open>dropdownHtml titleArg optionLines bodyContent =
     (let isOpen = ((\<exists>ol \<in> set optionLines. ol = '':open:'') \<or> strIncludes titleArg '':open:'');
          dropdownTitle = orElse (trim (replaceStr titleArg '':open:'' [])) ''Details''
      in ''<details class="dropdown"'' @ (if isOpen then '' open'' else []) @ ''><summary>'' @ dropdownTitle
           @ ''</summary><div class="dropdown-content">\<newline>\<newline>'' @ bodyContent @ ''\<newline>\<newline></div></details>'')\<close>

definition admonitionNames :: \<open>string list\<close> where
  \<open>admonitionNames = [''note'', ''warning'', ''tip'', ''important'', ''caution'', ''danger'', ''hint'', ''seealso'']\<close>

definition admonitionHtml :: \<open>string \<Rightarrow> string \<Rightarrow> string \<Rightarrow> string\<close> where
  \<open>admonitionHtml name titleArg bodyContent =
     (let admonitionTitle = orElse titleArg (capitalize name)
      in ''<div class="admonition '' @ name @ ''"><div class="admonition-title">'' @ admonitionTitle
           @ ''</div>\<newline>\<newline>'' @ bodyContent @ ''\<newline>\<newline></div>'')\<close>

definition cardHtml :: \<open>string \<Rightarrow> string list \<Rightarrow> string \<Rightarrow> string\<close> where
  \<open>cardHtml titleArg optionLines bodyContent =
     (let cardTitle = orElse titleArg ''Card'';
          header = getOpt '':header:'' optionLines cardTitle;
          footer = getOpt '':footer:'' optionLines [];
          link = getOpt '':link:'' optionLines [];
          h0 = (if link \<noteq> [] then ''<a href="'' @ link @ ''" class="card" target="_blank" rel="noopener">''
                else ''<div class="card">'');
          h1 = (if header \<noteq> [] then h0 @ ''<div class="card-header">'' @ header @ ''</div>'' else h0);
          h2 = h1 @ ''<div class="card-body">\<newline>\<newline>'' @ bodyContent @ ''\<newline>\<newline></div>'';
          h3 = (if footer \<noteq> [] then h2 @ ''<div class="card-footer">'' @ footer @ ''</div>'' else h2)
      in h3 @ (if link \<noteq> [] then ''</a>'' else ''</div>''))\<close>

definition gridHtml :: \<open>string \<Rightarrow> string \<Rightarrow> string\<close> where
  \<open>gridHtml titleArg bodyContent =
     (let cols = orElse (last (splitCh CHR '' '' titleArg)) ''3''
      in ''<div class="grid" data-columns="'' @ cols @ ''">\<newline>\<newline>'' @ bodyContent @ ''\<newline>\<newline></div>'')\<close>

definition tabSetHtml :: \<open>string \<Rightarrow> string\<close> where
  \<open>tabSetHtml bodyContent = ''<div class="tab-set">\<newline>\<newline>'' @ bodyContent @ ''\<newline>\<newline></div>''\<close>

definition tabItemHtml :: \<open>string \<Rightarrow> string \<Rightarrow> string\<close> where
  \<open>tabItemHtml titleArg bodyContent =
     (let tabTitle = orElse titleArg ''Tab''
      in ''<div class="tab-item" data-title="'' @ tabTitle @ ''">\<newline>\<newline>'' @ bodyContent @ ''\<newline>\<newline></div>'')\<close>

definition prfNames :: \<open>string list\<close> where
  \<open>prfNames = [''prf:proof'', ''prf:theorem'', ''prf:lemma'', ''prf:definition'', ''prf:criterion'',
     ''prf:remark'', ''prf:conjecture'', ''prf:corollary'', ''prf:algorithm'', ''prf:example'',
     ''prf:property'', ''prf:observation'', ''prf:proposition'', ''prf:assumption'']\<close>

definition prfHtml :: \<open>string \<Rightarrow> string list \<Rightarrow> string \<Rightarrow> string\<close> where
  \<open>prfHtml name optionLines bodyContent =
     (let prfType = splitCh CHR '':'' name ! 1;
          prfTitle = capitalize prfType;
          label = getOpt '':label:'' optionLines [];
          idAttr = idAttrOf label
      in ''<div class="prf-block prf-'' @ prfType @ ''"'' @ idAttr @ ''><div class="prf-title">'' @ prfTitle
           @ ''</div><div class="prf-content">\<newline>\<newline>'' @ bodyContent @ ''\<newline>\<newline></div></div>'')\<close>

text \<open>The \<^verbatim>\<open>iframe\<close> case. \<open>embedUrlOf\<close> is the value of the source's \<^verbatim>\<open>embedUrl\<close>:
  a URL with \<^verbatim>\<open>youtube.com/watch\<close> is searched for \<^verbatim>\<open>/[?&]v=([^&]+)/\<close>; otherwise a URL
  with \<^verbatim>\<open>youtu.be/\<close> gives the text between its first \<^verbatim>\<open>youtu.be/\<close> and the next
  \<^verbatim>\<open>?\<close> (\<^verbatim>\<open>url.split('youtu.be/')[1]?.split('?')[0]\<close>).\<close>

definition reVParam :: re where
  \<open>reVParam = seqs [Cls (\<lambda>c. c = CHR ''?'' \<or> c = CHR ''&''), Lit ''v='', Grp 1 (Plus (NotCh CHR ''&''))]\<close>

definition embedPrefix :: string where
  \<open>embedPrefix = ''https://www.youtube.com/embed/''\<close>

definition embedUrlOf :: \<open>string \<Rightarrow> string\<close> where
  \<open>embedUrlOf url =
     (if strIncludes url ''youtube.com/watch'' then
        (case reExec reVParam url of
           None \<Rightarrow> url
         | Some c \<Rightarrow> (let videoId = capText c 1 in if videoId \<noteq> [] then embedPrefix @ videoId else url))
      else if strIncludes url ''youtu.be/'' then
        (case splitStr ''youtu.be/'' url of
           p0 # p1 # ps \<Rightarrow>
             (let videoId = hd (splitCh CHR ''?'' p1) in if videoId \<noteq> [] then embedPrefix @ videoId else url)
         | _ \<Rightarrow> url)
      else url)\<close>

definition iframeHtml :: \<open>string \<Rightarrow> string list \<Rightarrow> string \<Rightarrow> string\<close> where
  \<open>iframeHtml titleArg optionLines bodyContent =
     (let url = titleArg;
          width = getOpt '':width:'' optionLines ''100%'';
          iframeTitle = getOpt '':title:'' optionLines ''Embedded content'';
          label = getOpt '':label:'' optionLines [];
          idAttr = idAttrOf label;
          embedUrl = embedUrlOf url
      in ''<figure class="myst-iframe"'' @ idAttr @ ''><iframe src="'' @ embedUrl @ ''" width="'' @ width
           @ ''" height="400" title="'' @ iframeTitle
           @ ''" frameborder="0" allow="accelerometer; autoplay; clipboard-write; encrypted-media; gyroscope; picture-in-picture" allowfullscreen loading="lazy"></iframe>''
           @ (if bodyContent \<noteq> [] then ''<figcaption>'' @ bodyContent @ ''</figcaption>'' else [])
           @ ''</figure>'')\<close>

definition videoHtml :: \<open>string \<Rightarrow> string list \<Rightarrow> string \<Rightarrow> string\<close> where
  \<open>videoHtml titleArg optionLines bodyContent =
     (let videoPath = titleArg;
          width = getOpt '':width:'' optionLines [];
          height = getOpt '':height:'' optionLines [];
          align = getOpt '':align:'' optionLines ''center'';
          controls = hasOpt '':controls:'' optionLines;
          autoplay = hasOpt '':autoplay:'' optionLines;
          loop = hasOpt '':loop:'' optionLines;
          muted = hasOpt '':muted:'' optionLines;
          styleAttrs = (if width \<noteq> [] then [''width: '' @ width @ ''px; max-width: 100%;''] else [])
                     @ (if height \<noteq> [] then [''height: '' @ height @ ''px;''] else []);
          attrs = (if controls then [''controls''] else []) @ (if autoplay then [''autoplay''] else [])
                @ (if loop then [''loop''] else []) @ (if muted then [''muted''] else []);
          alignClass = (if align \<noteq> [] then '' align-'' @ align else [])
      in ''<div class="myst-video-container'' @ alignClass @ ''"><video src="'' @ videoPath @ ''" style="''
           @ joinWith '' '' styleAttrs @ ''" '' @ joinWith '' '' attrs
           @ '' preload="metadata">Your browser does not support the video tag.</video>''
           @ (if bodyContent \<noteq> [] then ''<div class="video-caption">'' @ bodyContent @ ''</div>'' else [])
           @ ''</div>'')\<close>

definition videoCompareHtml :: \<open>string list \<Rightarrow> string \<Rightarrow> string\<close> where
  \<open>videoCompareHtml optionLines bodyContent =
     (let label = getOpt '':label:'' optionLines [];
          idAttr = idAttrOf label;
          leftVideo = getOpt '':left:'' optionLines [];
          rightVideo = getOpt '':right:'' optionLines [];
          leftLabel = getOpt '':left-label:'' optionLines ''Left'';
          rightLabel = getOpt '':right-label:'' optionLines ''Right''
      in ''<div class="video-compare"'' @ idAttr @ ''>\<newline>            <div class="video-compare-container">\<newline>                <div class="video-compare-left">\<newline>                    <div class="video-compare-label">'' @ leftLabel @ ''</div>\<newline>                    <video controls preload="metadata">\<newline>                        <source src="'' @ leftVideo @ ''" type="video/mp4">\<newline>                    </video>\<newline>                </div>\<newline>                <div class="video-compare-right">\<newline>                    <div class="video-compare-label">'' @ rightLabel @ ''</div>\<newline>                    <video controls preload="metadata">\<newline>                        <source src="'' @ rightVideo @ ''" type="video/mp4">\<newline>                    </video>\<newline>                </div>\<newline>            </div>\<newline>            <div class="video-compare-caption">'' @ bodyContent @ ''</div>\<newline>        </div>'')\<close>

definition exerciseHtml :: \<open>string \<Rightarrow> string list \<Rightarrow> string \<Rightarrow> string\<close> where
  \<open>exerciseHtml titleArg optionLines bodyContent =
     (let label = getOpt '':label:'' optionLines [];
          idAttr = idAttrOf label;
          extraClass = getOpt '':class:'' optionLines [];
          isDropdown = strIncludes extraClass ''dropdown'';
          exerciseTitle = orElse titleArg ''Exercise''
      in if isDropdown then
           ''<div class="exercise-block'' @ (if extraClass \<noteq> [] then '' '' @ extraClass else []) @ ''"'' @ idAttr @ ''>\<newline>                <details class="exercise-dropdown">\<newline>                    <summary class="exercise-title">'' @ exerciseTitle @ ''</summary>\<newline>                    <div class="exercise-content">\<newline>\<newline>'' @ bodyContent @ ''\<newline>\<newline></div>\<newline>                </details>\<newline>            </div>''
         else
           ''<div class="exercise-block'' @ (if extraClass \<noteq> [] then '' '' @ extraClass else []) @ ''"'' @ idAttr @ ''>\<newline>            <div class="exercise-title">'' @ exerciseTitle @ ''</div>\<newline>            <div class="exercise-content">\<newline>\<newline>'' @ bodyContent @ ''\<newline>\<newline></div>\<newline>        </div>'')\<close>

definition solutionHtml :: \<open>string \<Rightarrow> string list \<Rightarrow> string \<Rightarrow> string\<close> where
  \<open>solutionHtml titleArg optionLines bodyContent =
     (let linkedExercise = titleArg;
          label = getOpt '':label:'' optionLines [];
          idAttr = idAttrOf label;
          extraClass = getOpt '':class:'' optionLines [];
          isDropdown = strIncludes extraClass ''dropdown'';
          solutionTitle = (if linkedExercise \<noteq> [] then ''Solution to '' @ linkedExercise else ''Solution'')
      in if isDropdown then
           ''<div class="solution-block'' @ (if extraClass \<noteq> [] then '' '' @ extraClass else []) @ ''"'' @ idAttr @ '' data-exercise="'' @ linkedExercise @ ''">\<newline>                <details class="solution-dropdown">\<newline>                    <summary class="solution-title">'' @ solutionTitle @ ''</summary>\<newline>                    <div class="solution-content">\<newline>\<newline>'' @ bodyContent @ ''\<newline>\<newline></div>\<newline>                </details>\<newline>            </div>''
         else
           ''<div class="solution-block'' @ (if extraClass \<noteq> [] then '' '' @ extraClass else []) @ ''"'' @ idAttr @ '' data-exercise="'' @ linkedExercise @ ''">\<newline>            <div class="solution-title">'' @ solutionTitle @ ''</div>\<newline>            <div class="solution-content">\<newline>\<newline>'' @ bodyContent @ ''\<newline>\<newline></div>\<newline>        </div>'')\<close>

definition codeBlockHtml :: \<open>string \<Rightarrow> string list \<Rightarrow> string \<Rightarrow> string\<close> where
  \<open>codeBlockHtml titleArg optionLines bodyContent =
     (let language = orElse titleArg ''text'';
          label = getOpt '':label:'' optionLines [];
          idAttr = idAttrOf label;
          caption = getOpt '':caption:'' optionLines [];
          filename = getOpt '':filename:'' optionLines [];
          linenosOpt = find (\<lambda>ol. reTest (seqs [Bos, Lit '':linenos:'']) ol) optionLines;
          showLinenos = (case linenosOpt of None \<Rightarrow> False | Some ol \<Rightarrow> \<not> strIncludes ol ''false'');
          linenoStart = (case findOpt '':lineno-start:'' optionLines of
                           None \<Rightarrow> 1
                         | Some ol \<Rightarrow> (case parseInt (optValue '':lineno-start:'' ol) of
                                        None \<Rightarrow> 1
                                      | Some n \<Rightarrow> if n = 0 then 1 else n));
          linenosClass = (if showLinenos then '' line-numbers'' else []);
          dataStart = (if showLinenos \<and> linenoStart \<noteq> 1 then '' data-start="'' @ showInt linenoStart @ ''"'' else []);
          r0 = ''<div class="code-block-container'' @ linenosClass @ ''"'' @ idAttr @ dataStart @ ''>'';
          r1 = (if filename \<noteq> [] then r0 @ ''<div class="code-filename">'' @ escapeHtml filename @ ''</div>'' else r0);
          r2 = r1 @ ''\<newline>\<newline>```'' @ language @ ''\<newline>'' @ bodyContent @ ''\<newline>```\<newline>\<newline>'';
          r3 = (if caption \<noteq> [] then r2 @ ''<div class="code-caption">'' @ caption @ ''</div>'' else r2)
      in r3 @ ''</div>'')\<close>

text \<open>\<^verbatim>\<open>Buffer.from(bodyContent).toString('base64')\<close>: the UTF-8 bytes of the text, in
  base64 with padding.\<close>

definition utf8 :: \<open>char \<Rightarrow> nat list\<close> where
  \<open>utf8 c = (let n = (of_char c :: nat) in if n < 128 then [n] else [192 + n div 64, 128 + n mod 64])\<close>

definition b64chars :: string where
  \<open>b64chars = ''ABCDEFGHIJKLMNOPQRSTUVWXYZabcdefghijklmnopqrstuvwxyz0123456789+/''\<close>

fun b64enc :: \<open>nat list \<Rightarrow> string\<close> where
  \<open>b64enc [] = []\<close>
| \<open>b64enc [x] = [b64chars ! (x div 4), b64chars ! ((x mod 4) * 16), CHR ''='', CHR ''='']\<close>
| \<open>b64enc [x, y] =
     [b64chars ! (x div 4), b64chars ! ((x mod 4) * 16 + y div 16), b64chars ! ((y mod 16) * 4), CHR ''='']\<close>
| \<open>b64enc (x # y # z # r) =
     [b64chars ! (x div 4), b64chars ! ((x mod 4) * 16 + y div 16),
      b64chars ! ((y mod 16) * 4 + z div 64), b64chars ! (z mod 64)] @ b64enc r\<close>

definition toBase64 :: \<open>string \<Rightarrow> string\<close> where
  \<open>toBase64 s = b64enc (concat (map utf8 s))\<close>

definition mermaidHtml :: \<open>string list \<Rightarrow> string \<Rightarrow> string\<close> where
  \<open>mermaidHtml optionLines bodyContent =
     (let label = getOpt '':label:'' optionLines [];
          idAttr = idAttrOf label;
          caption = getOpt '':caption:'' optionLines [];
          base64Content = toBase64 bodyContent;
          r0 = ''<div class="mermaid-container"'' @ idAttr @ ''>'';
          r1 = r0 @ ''<pre class="mermaid" data-code="'' @ base64Content @ ''"></pre>'';
          r2 = (if caption \<noteq> [] then r1 @ ''<div class="mermaid-caption">'' @ caption @ ''</div>'' else r1)
      in r2 @ ''</div>'')\<close>

text \<open>The glossary: a loop over the lines of the body with the state \<^verbatim>\<open>html\<close>,
  \<^verbatim>\<open>currentTerm\<close>. \<^verbatim>\<open>/^:\s+/\<close> marks a definition line.\<close>

definition reColonWs :: re where
  \<open>reColonWs = seqs [Bos, Chr CHR '':'', Plus (Cls isSpace)]\<close>

definition glossaryStep :: \<open>string \<times> string \<Rightarrow> string \<Rightarrow> string \<times> string\<close> where
  \<open>glossaryStep st line =
     (let html = fst st; currentTerm = snd st in
      if trim line = [] then st
      else if reTest reColonWs line \<or> startsWith line '' '' \<or> startsWith line [CHR 0x09] then
        (if currentTerm \<noteq> [] then
           (let defText = trim (replaceFirstT reColonWs 0 [] line)
            in (html @ ''<dd>'' @ defText @ ''</dd>'', currentTerm))
         else st)
      else
        (let term = trim line;
             ident = ''term-'' @ slugify term
         in (html @ ''<dt id="'' @ ident @ ''">'' @ term @ ''</dt>'', term)))\<close>

definition glossaryHtml :: \<open>string \<Rightarrow> string\<close> where
  \<open>glossaryHtml bodyContent =
     fst (foldl glossaryStep (''<dl class="myst-glossary">'', []) (splitCh CHR 0x0A bodyContent)) @ ''</dl>''\<close>

definition defaultHtml :: \<open>string \<Rightarrow> string \<Rightarrow> string\<close> where
  \<open>defaultHtml name bodyContent =
     ''<div class="myst-'' @ name @ ''">\<newline>\<newline>'' @ bodyContent @ ''\<newline>\<newline></div>''\<close>

text \<open>The \<^verbatim>\<open>switch (name)\<close>.\<close>

definition generateDirectiveHtml :: \<open>string \<Rightarrow> string \<Rightarrow> string list \<Rightarrow> string \<Rightarrow> string\<close> where
  \<open>generateDirectiveHtml name titleArg optionLines bodyContent =
     (if name = ''dropdown'' then dropdownHtml titleArg optionLines bodyContent
      else if name \<in> set admonitionNames then admonitionHtml name titleArg bodyContent
      else if name = ''card'' then cardHtml titleArg optionLines bodyContent
      else if name = ''grid'' then gridHtml titleArg bodyContent
      else if name = ''tab-set'' then tabSetHtml bodyContent
      else if name = ''tab-item'' then tabItemHtml titleArg bodyContent
      else if name \<in> set prfNames then prfHtml name optionLines bodyContent
      else if name = ''iframe'' then iframeHtml titleArg optionLines bodyContent
      else if name = ''video'' then videoHtml titleArg optionLines bodyContent
      else if name = ''video-compare'' then videoCompareHtml optionLines bodyContent
      else if name = ''exercise'' then exerciseHtml titleArg optionLines bodyContent
      else if name = ''solution'' then solutionHtml titleArg optionLines bodyContent
      else if name = ''code'' \<or> name = ''code-block'' then codeBlockHtml titleArg optionLines bodyContent
      else if name = ''mermaid'' then mermaidHtml optionLines bodyContent
      else if name = ''glossary'' then glossaryHtml bodyContent
      else defaultHtml name bodyContent)\<close>

section \<open>The directive engine: \<^verbatim>\<open>parseMystDirectives\<close>\<close>

text \<open>\<^verbatim>\<open>/^(:{3,4})\{([\w:-]+)\}\s*(.*)$/\<close> and \<^verbatim>\<open>/^(`{3,4})\{([\w:-]+)\}\s*(.*)$/\<close>: the
  opening line of a directive, for the fence character \<open>f\<close>.\<close>

definition isNameCh :: \<open>char \<Rightarrow> bool\<close> where
  \<open>isNameCh c \<longleftrightarrow> isWordCh c \<or> c = CHR '':'' \<or> c = CHR ''-''\<close>

definition reDirective :: \<open>char \<Rightarrow> re\<close> where
  \<open>reDirective f =
     seqs [Bos, Grp 1 (seqs [Chr f, Chr f, Chr f, Opt (Chr f)]), Chr CHR ''{'',
           Grp 2 (Plus (Cls isNameCh)), Chr CHR ''}'', Star (Cls isSpace), Grp 3 (Star Dot), Eos]\<close>

text \<open>\<^verbatim>\<open>colonMatch || backtickMatch\<close>, as the three captures: the fence, the name and
  the rest of the line.\<close>

definition directiveMatch :: \<open>string \<Rightarrow> (string \<times> string \<times> string) option\<close> where
  \<open>directiveMatch line =
     map_option (\<lambda>c. (capText c 1, capText c 2, capText c 3))
       (case reExec (reDirective CHR '':'') line of
          Some c \<Rightarrow> Some c
        | None \<Rightarrow> reExec (reDirective btick) line)\<close>

text \<open>The two patterns built from the fence of the opening line:
  \<^verbatim>\<open>^F{n}\s*$\<close> closes, \<^verbatim>\<open>^F{n}\{[\w:-]+\<close> opens a nested directive, where \<open>F\<close> is the
  fence character and \<open>n\<close> the length of the fence.\<close>

definition fenceCh :: \<open>string \<Rightarrow> char\<close> where
  \<open>fenceCh fence = (case fence of [] \<Rightarrow> btick | f # _ \<Rightarrow> if f = CHR '':'' then CHR '':'' else btick)\<close>

definition closingPattern :: \<open>string \<Rightarrow> re\<close> where
  \<open>closingPattern fence =
     seqs [Bos, Lit (replicate (length fence) (fenceCh fence)), Star (Cls isSpace), Eos]\<close>

definition openingPattern :: \<open>string \<Rightarrow> re\<close> where
  \<open>openingPattern fence =
     seqs [Bos, Lit (replicate (length fence) (fenceCh fence)), Chr CHR ''{'', Plus (Cls isNameCh)]\<close>

text \<open>The search for the closing fence, \<^verbatim>\<open>for (let j = i + 1; ...)\<close>: the lines after
  the opening line, the nesting depth (1 at the start); the result is the index of
  the closing line among these lines, \<open>None\<close> when the loop ends with
  \<^verbatim>\<open>endIndex = -1\<close>.\<close>

fun findEnd :: \<open>string \<Rightarrow> int \<Rightarrow> string list \<Rightarrow> nat option\<close> where
  \<open>findEnd fence depth [] = None\<close>
| \<open>findEnd fence depth (l # ls) =
     (if reTest (openingPattern fence) l then map_option Suc (findEnd fence (depth + 1) ls)
      else if reTest (closingPattern fence) l then
        (if depth - 1 = 0 then Some 0 else map_option Suc (findEnd fence (depth - 1) ls))
      else map_option Suc (findEnd fence depth ls))\<close>

text \<open>The split of the body into option lines and content lines: the loop over
  \<^verbatim>\<open>bodyLines\<close> with the state \<^verbatim>\<open>optionLines\<close>, \<^verbatim>\<open>contentLines\<close>, \<^verbatim>\<open>inOptions\<close>; an option line
  matches \<^verbatim>\<open>/^:\w+(?:-\w+)?:/\<close> once trimmed.\<close>

definition reOptionLine :: re where
  \<open>reOptionLine =
     seqs [Bos, Chr CHR '':'', Plus (Cls isWordCh), Opt (Seq (Chr CHR ''-'') (Plus (Cls isWordCh))),
           Chr CHR '':'']\<close>

record bodySplit =
  optionLines :: \<open>string list\<close>
  contentLines :: \<open>string list\<close>
  inOptions :: bool

definition splitStep :: \<open>bodySplit \<Rightarrow> string \<Rightarrow> bodySplit\<close> where
  \<open>splitStep st bodyLine =
     (let trimmed = trim bodyLine in
      if inOptions st \<and> reTest reOptionLine trimmed then
        st\<lparr>optionLines := optionLines st @ [trimmed]\<rparr>
      else if trimmed = [] \<and> inOptions st then st
      else st\<lparr>inOptions := False, contentLines := contentLines st @ [bodyLine]\<rparr>)\<close>

definition splitBody :: \<open>string list \<Rightarrow> bodySplit\<close> where
  \<open>splitBody bodyLines =
     foldl splitStep \<lparr>optionLines = [], contentLines = [], inOptions = True\<rparr> bodyLines\<close>

text \<open>\<^verbatim>\<open>content.replace(/\r\n/g, '\n').replace(/\r/g, '\n').split('\n')\<close>\<close>

definition normalizeNewlines :: \<open>string \<Rightarrow> string\<close> where
  \<open>normalizeNewlines content =
     replaceAllT (Chr CHR 0x0D) 0 nl (replaceAllT (Lit [CHR 0x0D, CHR 0x0A]) 0 nl content)\<close>

definition linesOf :: \<open>string \<Rightarrow> string list\<close> where
  \<open>linesOf content = splitCh CHR 0x0A (normalizeNewlines content)\<close>

text \<open>The main loop, \<^verbatim>\<open>while (i < lines.length)\<close>, reads the lines from index \<open>i\<close> on
  and nothing before them, so it is a recursion on the list of the remaining
  lines. A directive whose closing fence is found is replaced by its output, the
  body being parsed by the same function first; any other line is kept. The
  recursion on the body terminates because the body is shorter than the lines it
  was cut from: \<open>linesSize\<close> is the measure.\<close>

definition linesSize :: \<open>string list \<Rightarrow> nat\<close> where
  \<open>linesSize ls = sum_list (map (\<lambda>l. Suc (length l)) ls)\<close>

lemma linesSize_simps [simp]:
  \<open>linesSize [] = 0\<close>
  \<open>linesSize (l # ls) = Suc (length l) + linesSize ls\<close>
  \<open>linesSize (xs @ ys) = linesSize xs + linesSize ys\<close>
  by (simp_all add: linesSize_def)

lemma splitCh_nonempty: \<open>splitCh c s \<noteq> []\<close>
  by (induction s) (auto split: list.splits)

lemma linesSize_splitCh: \<open>linesSize (splitCh c s) = Suc (length s)\<close>
proof (induction s)
  case Nil
  then show ?case by simp
next
  case (Cons x xs)
  then show ?case
    using splitCh_nonempty [of c xs] by (cases \<open>splitCh c xs\<close>) auto
qed

lemma length_trim_le: \<open>length (trim s) \<le> length s\<close>
proof -
  have \<open>length (dropWhile isSpace (rev (dropWhile isSpace s))) \<le> length (rev (dropWhile isSpace s))\<close>
    by (rule length_dropWhile_le)
  also have \<open>\<dots> \<le> length s\<close>
    by (simp add: length_dropWhile_le)
  finally show ?thesis by (simp add: trim_def)
qed

lemma length_joinWith_nl: \<open>length (joinWith nl ls) \<le> linesSize ls\<close>
  by (induction nl ls rule: joinWith.induct) (auto simp: nl_def)

lemma replaceG_length_le:
  assumes \<open>\<And>b s n c st. reMatchAt r b s = Some (n, c) \<Longrightarrow>
             length (fst (cb b (take n s) (drop n s) c st)) \<le> min n (length s)\<close>
  shows \<open>length (fst (replaceG r cb b k s st)) \<le> length s - k\<close>
  using assms
proof (induction r cb b k s st rule: replaceG.induct)
  case (1 r cb b k st)
  show ?case
  proof (cases \<open>reMatchAt r b []\<close>)
    case None
    then show ?thesis by simp
  next
    case (Some p)
    obtain n c where p: \<open>p = (n, c)\<close> by (cases p)
    from "1.prems" [of b \<open>[]\<close> n c st] Some p show ?thesis by simp
  qed
next
  case (2 r cb b k x xs st)
  then show ?case by simp
next
  case (3 r cb b x xs st)
  show ?case
  proof (cases \<open>reMatchAt r b (x # xs)\<close>)
    case None
    with "3.IH"(1) "3.prems" show ?thesis
      by (simp split: prod.splits) (metis fst_conv)
  next
    case (Some p)
    obtain n c where p: \<open>p = (n, c)\<close> by (cases p)
    obtain rep st1 where cb: \<open>cb b (take n (x # xs)) (drop n (x # xs)) c st = (rep, st1)\<close>
      by (cases \<open>cb b (take n (x # xs)) (drop n (x # xs)) c st\<close>)
    have rep: \<open>length rep \<le> min n (Suc (length xs))\<close>
      using "3.prems" [of b \<open>x # xs\<close> n c st] Some p cb by simp
    show ?thesis
    proof (cases \<open>n = 0\<close>)
      case True
      have \<open>length (fst (replaceG r cb (x # b) 0 xs st1)) \<le> length xs - 0\<close>
        using "3.IH"(2) [OF Some [unfolded p] refl cb [symmetric] True] "3.prems" by blast
      with rep True Some p cb show ?thesis
        by (auto split: prod.splits)
    next
      case False
      have \<open>length (fst (replaceG r cb (x # b) (n - 1) xs st1)) \<le> length xs - (n - 1)\<close>
        using "3.IH"(3) [OF Some [unfolded p] refl cb [symmetric] False] "3.prems" by blast
      with rep False Some p cb show ?thesis
        by (auto split: prod.splits)
    qed
  qed
qed

lemma reMatchAt_Chr: \<open>reMatchAt (Chr x) b s = Some (n, c) \<Longrightarrow> n = 1 \<and> 1 \<le> length s\<close>
  by (auto simp: reMatchAt_def split: list.splits if_splits)

lemma reMatchAt_Lit2: \<open>reMatchAt (Lit [x, y]) b s = Some (n, c) \<Longrightarrow> n = 2 \<and> 2 \<le> length s\<close>
  by (auto simp: reMatchAt_def split: list.splits if_splits)

lemma length_replaceAllT_Chr: \<open>length (replaceAllT (Chr x) 0 [y] s) \<le> length s\<close>
proof -
  have \<open>length (fst (replaceG (Chr x) (\<lambda>b m a c st. (expandTemplate 0 [y] b m a c, st)) [] 0 s ())) \<le> length s - 0\<close>
  proof (rule replaceG_length_le)
    fix b s n c and st :: unit
    assume \<open>reMatchAt (Chr x) b s = Some (n, c)\<close>
    from reMatchAt_Chr [OF this]
    show \<open>length (fst (expandTemplate 0 [y] b (take n s) (drop n s) c, st)) \<le> min n (length s)\<close>
      by simp
  qed
  then show ?thesis by (simp add: replaceAllT_def)
qed

lemma length_replaceAllT_Lit2: \<open>length (replaceAllT (Lit [x, z]) 0 [y] s) \<le> length s\<close>
proof -
  have \<open>length (fst (replaceG (Lit [x, z]) (\<lambda>b m a c st. (expandTemplate 0 [y] b m a c, st)) [] 0 s ())) \<le> length s - 0\<close>
  proof (rule replaceG_length_le)
    fix b s n c and st :: unit
    assume \<open>reMatchAt (Lit [x, z]) b s = Some (n, c)\<close>
    from reMatchAt_Lit2 [OF this]
    show \<open>length (fst (expandTemplate 0 [y] b (take n s) (drop n s) c, st)) \<le> min n (length s)\<close>
      by simp
  qed
  then show ?thesis by (simp add: replaceAllT_def)
qed

lemma length_normalizeNewlines: \<open>length (normalizeNewlines s) \<le> length s\<close>
  unfolding normalizeNewlines_def nl_def
  by (rule order_trans [OF length_replaceAllT_Chr length_replaceAllT_Lit2])

lemma linesSize_linesOf: \<open>linesSize (linesOf s) \<le> Suc (length s)\<close>
  by (simp add: linesOf_def linesSize_splitCh length_normalizeNewlines)

lemma findEnd_less: \<open>findEnd fence d ls = Some e \<Longrightarrow> e < length ls\<close>
  by (induction ls arbitrary: d e) (auto split: if_splits)

lemma linesSize_take: \<open>e < length ls \<Longrightarrow> linesSize (take e ls) < linesSize ls\<close>
proof -
  assume \<open>e < length ls\<close>
  then have \<open>drop e ls \<noteq> []\<close> by simp
  then have \<open>0 < linesSize (drop e ls)\<close> by (cases \<open>drop e ls\<close>) auto
  moreover have \<open>linesSize ls = linesSize (take e ls) + linesSize (drop e ls)\<close>
    by (metis append_take_drop_id linesSize_simps(3))
  ultimately show ?thesis by simp
qed

lemma linesSize_drop: \<open>linesSize (drop n ls) \<le> linesSize ls\<close>
  by (metis append_take_drop_id le_add2 linesSize_simps(3))

lemma contentLines_splitStep:
  \<open>linesSize (contentLines (splitStep st l)) \<le> linesSize (contentLines st) + Suc (length l)\<close>
  by (simp add: splitStep_def Let_def)

lemma contentLines_foldl:
  \<open>linesSize (contentLines (foldl splitStep st ls)) \<le> linesSize (contentLines st) + linesSize ls\<close>
proof (induction ls arbitrary: st)
  case Nil
  then show ?case by simp
next
  case (Cons l ls)
  have \<open>linesSize (contentLines (foldl splitStep (splitStep st l) ls))
          \<le> linesSize (contentLines (splitStep st l)) + linesSize ls\<close>
    by (rule Cons.IH)
  also have \<open>\<dots> \<le> linesSize (contentLines st) + Suc (length l) + linesSize ls\<close>
    using contentLines_splitStep [of st l] by simp
  finally show ?case by simp
qed

lemma linesSize_contentLines: \<open>linesSize (contentLines (splitBody ls)) \<le> linesSize ls\<close>
  using contentLines_foldl [of \<open>\<lparr>optionLines = [], contentLines = [], inOptions = True\<rparr>\<close> ls]
  by (simp add: splitBody_def)

lemma body_smaller:
  assumes \<open>findEnd fence d rest = Some e\<close>
  shows \<open>linesSize (linesOf (trim (joinWith nl (contentLines (splitBody (take e rest)))))) < linesSize (line # rest)\<close>
proof -
  let ?c = \<open>contentLines (splitBody (take e rest))\<close>
  have \<open>linesSize (linesOf (trim (joinWith nl ?c))) \<le> Suc (length (trim (joinWith nl ?c)))\<close>
    by (rule linesSize_linesOf)
  also have \<open>\<dots> \<le> Suc (length (joinWith nl ?c))\<close>
    by (simp add: length_trim_le)
  also have \<open>\<dots> \<le> Suc (linesSize ?c)\<close>
    by (simp add: length_joinWith_nl)
  also have \<open>\<dots> \<le> Suc (linesSize (take e rest))\<close>
    by (simp add: linesSize_contentLines)
  also have \<open>\<dots> \<le> linesSize rest\<close>
    using linesSize_take [OF findEnd_less [OF assms]] by simp
  also have \<open>\<dots> < linesSize (line # rest)\<close>
    by simp
  finally show ?thesis .
qed

function pmdLines :: \<open>string list \<Rightarrow> string list\<close> where
  \<open>pmdLines [] = []\<close>
| \<open>pmdLines (line # rest) =
     (case directiveMatch line of
        None \<Rightarrow> line # pmdLines rest
      | Some (fence, name, title) \<Rightarrow>
          (case findEnd fence 1 rest of
             None \<Rightarrow> line # pmdLines rest
           | Some e \<Rightarrow>
               generateDirectiveHtml name (trim title)
                 (optionLines (splitBody (take e rest)))
                 (joinWith nl (pmdLines (linesOf (trim (joinWith nl (contentLines (splitBody (take e rest))))))))
               # pmdLines (drop (Suc e) rest)))\<close>
  by pat_completeness auto
termination
proof (relation \<open>measure linesSize\<close>)
  show \<open>wf (measure linesSize)\<close> by simp
next
  fix line rest
  show \<open>(rest, line # rest) \<in> measure linesSize\<close> by simp
next
  fix line rest
  show \<open>(rest, line # rest) \<in> measure linesSize\<close> by simp
next
  fix line rest fence e
  assume \<open>findEnd fence 1 rest = Some e\<close>
  then show \<open>(linesOf (trim (joinWith nl (contentLines (splitBody (take e rest))))), line # rest) \<in> measure linesSize\<close>
    using body_smaller [of fence 1 rest e line] by simp
next
  fix line rest e
  show \<open>(drop (Suc e) rest, line # rest) \<in> measure linesSize\<close>
    using linesSize_drop [of \<open>Suc e\<close> rest] by simp
qed

definition parseMystDirectives :: \<open>string \<Rightarrow> string\<close> where
  \<open>parseMystDirectives content = joinWith nl (pmdLines (linesOf content))\<close>

section \<open>The figure resolver: \<^verbatim>\<open>parseMystFigures\<close>\<close>

text \<open>
  The table of targets is a JavaScript object used as a dictionary; the model is
  a map. (A name that the object inherits, such as \<^verbatim>\<open>constructor\<close>, reads as an object
  without \<^verbatim>\<open>src\<close>, which the code below treats as it treats a missing target: the
  source path is false in \<^verbatim>\<open>if (!actualImagePath)\<close> either way.)
\<close>

record figTarget =
  alt :: string
  src :: string

type_synonym targets = \<open>string \<rightharpoonup> figTarget\<close>

text \<open>\<^verbatim>\<open>/^\(([^)]+)\)=!\[([^\]]*)\]\(([^)]+)\)$/gm\<close>\<close>

definition reTarget :: re where
  \<open>reTarget =
     seqs [BolM, Chr CHR ''('', Grp 1 (Plus (NotCh CHR '')'')), Lit '')=!['',
           Grp 2 (Star (NotCh CHR '']'')), Lit '']('', Grp 3 (Plus (NotCh CHR '')'')), Chr CHR '')'', EolM]\<close>

definition targetCb :: \<open>string \<Rightarrow> caps \<Rightarrow> targets \<Rightarrow> string \<times> targets\<close> where
  \<open>targetCb m c tg =
     (let targetName = capText c 1;
          altText = capText c 2;
          source = capText c 3;
          imageSrc = (if strIncludes source ''github.com'' \<and> strIncludes source ''/blob/''
                      then replaceStr (replaceStr source ''github.com'' ''raw.githubusercontent.com'') ''/blob/'' ''/''
                      else source)
      in (''<!-- target:'' @ targetName @ '' defined -->'',
          tg(targetName \<mapsto> \<lparr>alt = altText, src = imageSrc\<rparr>)))\<close>

text \<open>\<^verbatim>\<open>/```\{figure\}\s*(\S+)\s*\n([\s\S]*?)```/g\<close>\<close>

definition reFigure :: re where
  \<open>reFigure =
     seqs [Lit ''```{figure}'', Star (Cls isSpace), Grp 1 (Plus (Cls (\<lambda>c. \<not> isSpace c))),
           Star (Cls isSpace), Chr CHR 0x0A, Grp 2 (StarL AnyCh), Lit ''```'']\<close>

text \<open>\<^verbatim>\<open>/^:(\w+):\s*(.*)$/\<close>, an option line of a figure or of a math block.\<close>

definition reKeyValue :: re where
  \<open>reKeyValue =
     seqs [Bos, Chr CHR '':'', Grp 1 (Plus (Cls isWordCh)), Chr CHR '':'', Star (Cls isSpace),
           Grp 2 (Star Dot), Eos]\<close>

text \<open>The loop over the lines of a figure body: the options read so far and the
  caption lines.\<close>

type_synonym options = \<open>string \<rightharpoonup> string\<close>

definition figureStep :: \<open>options \<times> string list \<Rightarrow> string \<Rightarrow> options \<times> string list\<close> where
  \<open>figureStep st line =
     (let opts = fst st; captionLines = snd st; trimmed = trim line in
      case reExec reKeyValue trimmed of
        Some c \<Rightarrow> (opts(capText c 1 \<mapsto> capText c 2), captionLines)
      | None \<Rightarrow>
          if trimmed \<noteq> [] then (opts, captionLines @ [line])
          else if length captionLines > 0 then (opts, captionLines @ [line])
          else st)\<close>

definition optOf :: \<open>options \<Rightarrow> string \<Rightarrow> string\<close> where
  \<open>optOf opts key = (case opts key of None \<Rightarrow> [] | Some v \<Rightarrow> v)\<close>

definition videoExtensions :: \<open>string list\<close> where
  \<open>videoExtensions = [''.mp4'', ''.webm'', ''.ogg'', ''.mov'', ''.avi'']\<close>

definition figOptions :: \<open>string \<Rightarrow> options\<close> where
  \<open>figOptions body = fst (foldl figureStep (Map.empty, []) (splitCh CHR 0x0A body))\<close>

definition figCaption :: \<open>string \<Rightarrow> string\<close> where
  \<open>figCaption body = trim (joinWith nl (snd (foldl figureStep (Map.empty, []) (splitCh CHR 0x0A body))))\<close>

definition figAlignClass :: \<open>options \<Rightarrow> string\<close> where
  \<open>figAlignClass opts = (if optOf opts ''align'' \<noteq> [] then '' align-'' @ optOf opts ''align'' else [])\<close>

definition figIdAttr :: \<open>options \<Rightarrow> string\<close> where
  \<open>figIdAttr opts =
     (let labelId = (if optOf opts ''label'' \<noteq> [] then '' id="'' @ optOf opts ''label'' @ ''"'' else []);
          nameId = (if optOf opts ''name'' \<noteq> [] then '' id="'' @ optOf opts ''name'' @ ''"'' else [])
      in orElse labelId nameId)\<close>

definition figcaptionOf :: \<open>string \<Rightarrow> string\<close> where
  \<open>figcaptionOf caption = (if caption \<noteq> [] then ''<figcaption>'' @ caption @ ''</figcaption>'' else [])\<close>

definition figureCb :: \<open>targets \<Rightarrow> string \<Rightarrow> caps \<Rightarrow> string\<close> where
  \<open>figureCb tg m c =
     (let imagePath = capText c 1;
          body = capText c 2;
          opts = figOptions body;
          caption = figCaption body;
          target = (if startsWith imagePath ''#'' then tg (drop 1 imagePath) else None);
          actualImagePath =
            (if startsWith imagePath ''#'' then (case target of Some t \<Rightarrow> src t | None \<Rightarrow> [])
             else imagePath);
          defaultAlt =
            (if startsWith imagePath ''#'' then
               (case target of Some t \<Rightarrow> alt t
                | None \<Rightarrow> ''Target "'' @ drop 1 imagePath @ ''" not found'')
             else []);
          altText = orElse (optOf opts ''alt'')
                      (orElse defaultAlt (take 100 (replaceAllT (Chr CHR 0x0A) 0 '' '' caption)));
          width = (if optOf opts ''width'' \<noteq> [] then '' width="'' @ optOf opts ''width'' @ ''"'' else []);
          alignClass = figAlignClass opts;
          idAttr = figIdAttr opts
      in if actualImagePath = [] then
           ''<figure class="myst-figure'' @ alignClass @ ''"'' @ idAttr
             @ ''><div class="figure-error">Image target not found</div>'' @ figcaptionOf caption @ ''</figure>''
         else if (\<exists>ext \<in> set videoExtensions. endsWith (toLowerCase actualImagePath) ext) then
           ''<figure class="myst-figure myst-video'' @ alignClass @ ''"'' @ idAttr
             @ ''><video controls preload="metadata"'' @ width @ ''><source src="'' @ actualImagePath
             @ ''" type="video/'' @ last (splitCh CHR ''.'' actualImagePath)
             @ ''">Your browser does not support the video tag.</video>'' @ figcaptionOf caption @ ''</figure>''
         else
           ''<figure class="myst-figure'' @ alignClass @ ''"'' @ idAttr @ ''><img src="'' @ actualImagePath
             @ ''" alt="'' @ altText @ ''"'' @ width @ '' loading="lazy" />'' @ figcaptionOf caption @ ''</figure>'')\<close>

definition parseMystFigures :: \<open>string \<Rightarrow> string\<close> where
  \<open>parseMystFigures content =
     (case replaceAllSt reTarget targetCb content Map.empty of
        (processedContent, tg) \<Rightarrow> replaceAllFn reFigure (figureCb tg) processedContent)\<close>

section \<open>The math resolver: \<^verbatim>\<open>parseMystMath\<close>\<close>

text \<open>
  The state of one call: the registry \<^verbatim>\<open>equations\<close> and the counter \<^verbatim>\<open>eqCounter\<close>.
  The registry is kept as the list of its entries in the order of their first
  registration (a label registered again keeps its place and takes the new
  number); an entry's \<^verbatim>\<open>id\<close> is its label.
\<close>

record mathState =
  equations :: \<open>(string \<times> nat) list\<close>
  eqCounter :: nat

definition numberEq :: \<open>string \<Rightarrow> mathState \<Rightarrow> mathState\<close> where
  \<open>numberEq label st =
     \<lparr>equations = AList.update label (Suc (eqCounter st)) (equations st),
      eqCounter = Suc (eqCounter st)\<rparr>\<close>

text \<open>
  A read \<^verbatim>\<open>equations[label]\<close>. The registry is a plain object, so a label that is
  not registered but names a property the object inherits (\<^verbatim>\<open>constructor\<close>,
  \<^verbatim>\<open>toString\<close>, ...; \<^verbatim>\<open>number\<close> and \<^verbatim>\<open>id\<close> once an equation labelled \<^verbatim>\<open>__proto__\<close> has
  replaced the prototype) reads as a value that is true in a condition and has no
  \<^verbatim>\<open>number\<close>.
\<close>

datatype eqRead = Registered nat | Inherited | Missing

definition objectProtoKeys :: \<open>string list\<close> where
  \<open>objectProtoKeys = [''constructor'', ''__defineGetter__'', ''__defineSetter__'', ''hasOwnProperty'',
     ''__lookupGetter__'', ''__lookupSetter__'', ''isPrototypeOf'', ''propertyIsEnumerable'',
     ''toString'', ''valueOf'', ''__proto__'', ''toLocaleString'']\<close>

definition readEq :: \<open>(string \<times> nat) list \<Rightarrow> string \<Rightarrow> eqRead\<close> where
  \<open>readEq eqs label =
     (case map_of eqs label of
        Some n \<Rightarrow> Registered n
      | None \<Rightarrow>
          if label \<in> set objectProtoKeys
             \<or> (map_of eqs ''__proto__'' \<noteq> None \<and> (label = ''number'' \<or> label = ''id''))
          then Inherited else Missing)\<close>

definition bs :: string where
  \<open>bs = [bsl]\<close>

definition eqBlock :: \<open>string \<Rightarrow> string \<Rightarrow> nat \<Rightarrow> string\<close> where
  \<open>eqBlock label math n =
     ''<div class="equation-block" id="'' @ label @ ''">'' @ bs @ ''['' @ math @ bs @ '']''
       @ ''<span class="equation-number">('' @ showNat n @ '')</span>'' @ ''</div>''\<close>

definition eqBlockPlain :: \<open>string \<Rightarrow> string\<close> where
  \<open>eqBlockPlain math = ''<div class="equation-block">'' @ bs @ ''['' @ math @ bs @ '']'' @ ''</div>''\<close>

text \<open>Pass 1, \<^verbatim>\<open>/```\{math\}\s*\n([\s\S]*?)```/g\<close>: option lines anywhere in the body, the
  other lines are the math.\<close>

definition reMathFence :: re where
  \<open>reMathFence =
     seqs [Lit ''```{math}'', Star (Cls isSpace), Chr CHR 0x0A, Grp 1 (StarL AnyCh), Lit ''```'']\<close>

definition mathFenceStep :: \<open>options \<times> string list \<Rightarrow> string \<Rightarrow> options \<times> string list\<close> where
  \<open>mathFenceStep st line =
     (case reExec reKeyValue (trim line) of
        Some c \<Rightarrow> ((fst st)(capText c 1 \<mapsto> capText c 2), snd st)
      | None \<Rightarrow> (fst st, snd st @ [line]))\<close>

definition mathFenceCb :: \<open>string \<Rightarrow> caps \<Rightarrow> mathState \<Rightarrow> string \<times> mathState\<close> where
  \<open>mathFenceCb m c st =
     (let fullBody = capText c 1;
          r = foldl mathFenceStep (Map.empty, []) (splitCh CHR 0x0A fullBody);
          mathContent = trim (joinWith nl (snd r));
          label = optOf (fst r) ''label''
      in if label \<noteq> [] then
           (let st' = numberEq label st in (eqBlock label mathContent (eqCounter st'), st'))
         else (eqBlockPlain mathContent, st))\<close>

text \<open>Pass 2, \<^verbatim>\<open>/\$\$\s*([\s\S]*?)\$\$\s*\(([^)]+)\)/g\<close>.\<close>

definition reDollarLabel :: re where
  \<open>reDollarLabel =
     seqs [Lit ''$$'', Star (Cls isSpace), Grp 1 (StarL AnyCh), Lit ''$$'', Star (Cls isSpace),
           Chr CHR ''('', Grp 2 (Plus (NotCh CHR '')'')), Chr CHR '')'']\<close>

definition dollarLabelCb :: \<open>string \<Rightarrow> caps \<Rightarrow> mathState \<Rightarrow> string \<times> mathState\<close> where
  \<open>dollarLabelCb m c st =
     (let math = capText c 1; label = capText c 2; st' = numberEq label st
      in (eqBlock label (trim math) (eqCounter st'), st'))\<close>

text \<open>Pass 3, the loop over \<^verbatim>\<open>amsEnvs\<close>. The entries are pieces of pattern text, in
  which \<^verbatim>\<open>\*\<close> is a literal star; \<open>cleanEnv\<close> is the environment name they match.
  The pattern of an entry is \<^verbatim>\<open>\\begin\{env\}([\s\S]*?)\\end\{env\}\<close>; inside a match
  the first \<^verbatim>\<open>/\\label\{([^}]+)\}/\<close> is registered and put back unchanged.\<close>

definition amsEnvs :: \<open>string list\<close> where
  \<open>amsEnvs = [''equation'', ''equation'' @ bs @ ''*'', ''align'', ''align'' @ bs @ ''*'',
     ''gather'', ''gather'' @ bs @ ''*'', ''multline'', ''multline'' @ bs @ ''*'',
     ''alignat'', ''alignat'' @ bs @ ''*'', ''split'']\<close>

definition cleanEnv :: \<open>string \<Rightarrow> string\<close> where
  \<open>cleanEnv env = replaceStr env (bs @ ''*'') ''*''\<close>

definition reAms :: \<open>string \<Rightarrow> re\<close> where
  \<open>reAms env =
     seqs [Lit (bs @ ''begin{'' @ cleanEnv env @ ''}''), Grp 1 (StarL AnyCh),
           Lit (bs @ ''end{'' @ cleanEnv env @ ''}'')]\<close>

definition reLabel :: re where
  \<open>reLabel = seqs [Lit (bs @ ''label{''), Grp 1 (Plus (NotCh CHR ''}'')), Chr CHR ''}'']\<close>

definition amsLabelCb :: \<open>string \<Rightarrow> caps \<Rightarrow> string \<times> mathState \<Rightarrow> string \<times> string \<times> mathState\<close> where
  \<open>amsLabelCb m c ist =
     (let label = capText c 1
      in (bs @ ''label{'' @ label @ ''}'', label, numberEq label (snd ist)))\<close>

definition amsCb :: \<open>string \<Rightarrow> string \<Rightarrow> caps \<Rightarrow> mathState \<Rightarrow> string \<times> mathState\<close> where
  \<open>amsCb env m c st =
     (let envContent = capText c 1 in
      case replaceFirstSt reLabel amsLabelCb envContent ([], st) of
        (content, ident, st') \<Rightarrow>
          (let idAttr = (if ident \<noteq> [] then '' id="'' @ ident @ ''"'' else []);
               numberSpan = (if ident \<noteq> [] then
                               ''<span class="equation-number">('' @ showNat (eqCounter st') @ '')</span>''
                             else [])
           in (''<div class="equation-block ams-env"'' @ idAttr @ ''>'' @ bs @ ''['' @ bs @ ''begin{''
                 @ cleanEnv env @ ''}'' @ content @ bs @ ''end{'' @ cleanEnv env @ ''}'' @ bs @ '']''
                 @ numberSpan @ ''</div>'', st')))\<close>

definition amsPass :: \<open>string \<Rightarrow> string \<times> mathState \<Rightarrow> string \<times> mathState\<close> where
  \<open>amsPass env rs = replaceAllSt (reAms env) (amsCb env) (fst rs) (snd rs)\<close>

definition amsPasses :: \<open>string \<times> mathState \<Rightarrow> string \<times> mathState\<close> where
  \<open>amsPasses rs = foldl (\<lambda>rs env. amsPass env rs) rs amsEnvs\<close>

text \<open>Pass 4, \<^verbatim>\<open>/\$\$\s*([\s\S]*?)\$\$/g\<close>: the first \<^verbatim>\<open>/\\label\s*\{([^}]+)\}/\<close> of the math is
  the label, and is removed.\<close>

definition reDollar :: re where
  \<open>reDollar = seqs [Lit ''$$'', Star (Cls isSpace), Grp 1 (StarL AnyCh), Lit ''$$'']\<close>

definition reLabelWs :: re where
  \<open>reLabelWs =
     seqs [Lit (bs @ ''label''), Star (Cls isSpace), Chr CHR ''{'', Grp 1 (Plus (NotCh CHR ''}'')), Chr CHR ''}'']\<close>

definition dollarCb :: \<open>string \<Rightarrow> caps \<Rightarrow> mathState \<Rightarrow> string \<times> mathState\<close> where
  \<open>dollarCb m c st =
     (let math = capText c 1 in
      case replaceFirstSt reLabelWs (\<lambda>m' c' l. ([], capText c' 1)) math [] of
        (cleanMath, label) \<Rightarrow>
          if label \<noteq> [] then
            (let st' = numberEq label st in (eqBlock label (trim cleanMath) (eqCounter st'), st'))
          else (eqBlockPlain (trim cleanMath), st))\<close>

text \<open>Passes 5 and 6, the references \<^verbatim>\<open>/\{eq\}`([^`]+)`/g\<close> and \<^verbatim>\<open>/\[\]\(#([^)]+)\)/g\<close>. A value
  without \<^verbatim>\<open>number\<close> prints as \<^verbatim>\<open>undefined\<close>.\<close>

definition reEqRole :: re where
  \<open>reEqRole = seqs [Lit ''{eq}`'', Grp 1 (Plus (NotCh btick)), Chr btick]\<close>

definition reEmptyLink :: re where
  \<open>reEmptyLink = seqs [Lit ''[](#'', Grp 1 (Plus (NotCh CHR '')'')), Chr CHR '')'']\<close>

definition refCb :: \<open>string \<Rightarrow> caps \<Rightarrow> mathState \<Rightarrow> string \<times> mathState\<close> where
  \<open>refCb m c st =
     (let label = capText c 1 in
      case readEq (equations st) label of
        Registered n \<Rightarrow> (''<a href="#'' @ label @ ''" class="eq-ref">('' @ showNat n @ '')</a>'', st)
      | Inherited \<Rightarrow> (''<a href="#'' @ label @ ''" class="eq-ref">(undefined)</a>'', st)
      | Missing \<Rightarrow>
          (''<a href="#'' @ label @ ''" class="eq-ref eq-pending" data-label="'' @ label @ ''">(?)</a>'', st))\<close>

text \<open>Passes 7 and 8, inline math: \<^verbatim>\<open>/\{math(?:\s+[^}]+)?\}`([^`]+)`/g\<close> and
  \<^verbatim>\<open>/\$([^$\n]+)\$/g\<close>; \<open>escapeMath\<close> doubles every backslash.\<close>

definition escapeMath :: \<open>string \<Rightarrow> string\<close> where
  \<open>escapeMath math = replaceAllFn (Chr bsl) (\<lambda>m c. bs @ bs) math\<close>

definition reMathRole :: re where
  \<open>reMathRole =
     seqs [Lit ''{math'', Opt (Seq (Plus (Cls isSpace)) (Plus (NotCh CHR ''}''))), Lit ''}`'',
           Grp 1 (Plus (NotCh btick)), Chr btick]\<close>

definition reInlineDollar :: re where
  \<open>reInlineDollar =
     seqs [Chr CHR ''$'', Grp 1 (Plus (Cls (\<lambda>c. c \<noteq> CHR ''$'' \<and> c \<noteq> CHR 0x0A))), Chr CHR ''$'']\<close>

definition inlineCb :: \<open>string \<Rightarrow> caps \<Rightarrow> mathState \<Rightarrow> string \<times> mathState\<close> where
  \<open>inlineCb m c st = (bs @ bs @ ''('' @ escapeMath (capText c 1) @ bs @ bs @ '')'', st)\<close>

text \<open>Pass 9, the colon-fenced directive \<^verbatim>\<open>/:::\{math\}\s*\n([\s\S]*?):::/g\<close>, with the
  options \<^verbatim>\<open>/^:label:\s*(\S+)/\<close> and \<^verbatim>\<open>/^:enumerated:\s*(true|false)/\<close>; the loop state is
  \<^verbatim>\<open>mathContent\<close>, \<^verbatim>\<open>label\<close>, \<^verbatim>\<open>enumerated\<close>.\<close>

definition reColonMath :: re where
  \<open>reColonMath =
     seqs [Lit '':::{math}'', Star (Cls isSpace), Chr CHR 0x0A, Grp 1 (StarL AnyCh), Lit '':::'']\<close>

definition reLabelOpt :: re where
  \<open>reLabelOpt = seqs [Bos, Lit '':label:'', Star (Cls isSpace), Grp 1 (Plus (Cls (\<lambda>c. \<not> isSpace c)))]\<close>

definition reEnumOpt :: re where
  \<open>reEnumOpt = seqs [Bos, Lit '':enumerated:'', Star (Cls isSpace), Grp 1 (Alt (Lit ''true'') (Lit ''false''))]\<close>

record colonLoop =
  mathContent :: string
  label :: string
  enumerated :: bool

definition colonStep :: \<open>colonLoop \<Rightarrow> string \<Rightarrow> colonLoop\<close> where
  \<open>colonStep st line =
     (let trimmed = trim line in
      case reExec reLabelOpt trimmed of
        Some c \<Rightarrow> st\<lparr>label := capText c 1\<rparr>
      | None \<Rightarrow>
          (case reExec reEnumOpt trimmed of
             Some c \<Rightarrow> st\<lparr>enumerated := (capText c 1 = ''true'')\<rparr>
           | None \<Rightarrow> st\<lparr>mathContent := mathContent st @ line @ nl\<rparr>))\<close>

definition colonLoopOf :: \<open>string \<Rightarrow> colonLoop\<close> where
  \<open>colonLoopOf content =
     foldl colonStep \<lparr>mathContent = [], label = [], enumerated = True\<rparr> (splitCh CHR 0x0A content)\<close>

definition colonMathCb :: \<open>string \<Rightarrow> caps \<Rightarrow> mathState \<Rightarrow> string \<times> mathState\<close> where
  \<open>colonMathCb m c st =
     (let r = colonLoopOf (capText c 1);
          math = trim (mathContent r)
      in if enumerated r \<and> label r \<noteq> [] then
           (let st' = numberEq (label r) st in (eqBlock (label r) math (eqCounter st'), st'))
         else (eqBlockPlain math, st))\<close>

text \<open>The nine passes in the order of the source. \<open>parseMystMathSt\<close> also returns
  the final registry and counter, which the source drops on return.\<close>

definition mathPass :: \<open>re \<Rightarrow> (string \<Rightarrow> caps \<Rightarrow> mathState \<Rightarrow> string \<times> mathState) \<Rightarrow> string \<times> mathState \<Rightarrow> string \<times> mathState\<close> where
  \<open>mathPass r cb rs = replaceAllSt r cb (fst rs) (snd rs)\<close>

definition parseMystMathSt :: \<open>string \<Rightarrow> string \<times> mathState\<close> where
  \<open>parseMystMathSt content =
     (let rs = (content, \<lparr>equations = [], eqCounter = 0\<rparr>);
          rs = mathPass reMathFence mathFenceCb rs;
          rs = mathPass reDollarLabel dollarLabelCb rs;
          rs = amsPasses rs;
          rs = mathPass reDollar dollarCb rs;
          rs = mathPass reEqRole refCb rs;
          rs = mathPass reEmptyLink refCb rs;
          rs = mathPass reMathRole inlineCb rs;
          rs = mathPass reInlineDollar inlineCb rs;
          rs = mathPass reColonMath colonMathCb rs
      in rs)\<close>

definition parseMystMath :: \<open>string \<Rightarrow> string\<close> where
  \<open>parseMystMath content = fst (parseMystMathSt content)\<close>

section \<open>The path rewriter\<close>

text \<open>The last step of \<^verbatim>\<open>renderMarkdownContent\<close>, on the HTML that the Markdown
  renderer returned. \<open>isDev\<close> is \<^verbatim>\<open>import.meta.env.DEV\<close>: true in local mode, false in
  published mode. The replacements are strings, hence templates.\<close>

definition gitHubBase :: string where
  \<open>gitHubBase = ''https://raw.githubusercontent.com/ROCm/rocm-blogs/release''\<close>

definition baseImageUrl :: \<open>bool \<Rightarrow> string \<Rightarrow> string \<Rightarrow> string\<close> where
  \<open>baseImageUrl isDev category slug =
     (if isDev then ''/blogs/'' @ category @ ''/'' @ slug @ ''/images/''
      else gitHubBase @ ''/blogs/'' @ category @ ''/'' @ slug @ ''/images/'')\<close>

definition baseImageUrlSingular :: \<open>bool \<Rightarrow> string \<Rightarrow> string \<Rightarrow> string\<close> where
  \<open>baseImageUrlSingular isDev category slug =
     (if isDev then ''/blogs/'' @ category @ ''/'' @ slug @ ''/image/''
      else gitHubBase @ ''/blogs/'' @ category @ ''/'' @ slug @ ''/image/'')\<close>

definition sharedImagesUrl :: \<open>bool \<Rightarrow> string\<close> where
  \<open>sharedImagesUrl isDev = (if isDev then ''/blogs/images/'' else gitHubBase @ ''/blogs/images/'')\<close>

definition rewritePaths :: \<open>bool \<Rightarrow> string \<Rightarrow> string \<Rightarrow> string \<Rightarrow> string\<close> where
  \<open>rewritePaths isDev category slug htmlContent =
     (let img = baseImageUrl isDev category slug;
          imgS = baseImageUrlSingular isDev category slug;
          shared = sharedImagesUrl isDev;
          vid = replaceStr img ''/images/'' ''/videos/'';
          h = replaceAllT (Lit ''src="./images/'') 0 (''src="'' @ img) htmlContent;
          h = replaceAllT (Lit ''src="images/'') 0 (''src="'' @ img) h;
          h = replaceAllT (Lit ''src="./image/'') 0 (''src="'' @ imgS) h;
          h = replaceAllT (Lit ''src="image/'') 0 (''src="'' @ imgS) h;
          h = replaceAllT (Lit ''src="../images/'') 0 (''src="'' @ shared) h;
          h = replaceAllT (Lit ''src="./videos/'') 0 (''src="'' @ vid) h;
          h = replaceAllT (Lit ''src="videos/'') 0 (''src="'' @ vid) h
      in h)\<close>

text \<open>\<^verbatim>\<open>rewriteImageUrlsForProduction\<close>.\<close>

definition rewriteImageUrlsForProduction :: \<open>bool \<Rightarrow> string \<Rightarrow> string\<close> where
  \<open>rewriteImageUrlsForProduction isDev html =
     (if isDev then html
      else replaceAllT (Lit ''src="/blogs/'') 0 (''src="'' @ gitHubBase @ ''/blogs/'') html)\<close>

section \<open>Properties\<close>

subsection \<open>Keyboard keys\<close>

text \<open>
  Claim C9. The role engine is meant to split the text of a \<^verbatim>\<open>kbd\<close> or \<^verbatim>\<open>keyboard\<close>
  role on \<^verbatim>\<open>+\<close> and to render one key element per piece. For the \<^verbatim>\<open>kbd\<close> spelling the
  earlier substitution \<^verbatim>\<open>{kbd}`text` -> <kbd>$1</kbd>\<close> has already consumed the role
  when the splitting substitution runs, so \<^verbatim>\<open>{kbd}`Ctrl+C`\<close> renders as the single
  element \<^verbatim>\<open><kbd>Ctrl+C</kbd>\<close>, not as two keys.
\<close>

theorem C9_kbd_role_is_not_split:
  \<open>parseMystRoles ''{kbd}`Ctrl+C`'' = ''<kbd>Ctrl+C</kbd>''\<close>
  by code_simp

text \<open>The \<^verbatim>\<open>keyboard\<close> spelling reaches the splitting substitution.\<close>

lemma keyboard_role_is_split:
  \<open>parseMystRoles ''{keyboard}`Ctrl+C`'' = ''<kbd>Ctrl</kbd> + <kbd>C</kbd>''\<close>
  by code_simp

subsection \<open>Path rewriting\<close>

text \<open>
  Claim C5, as the code has it. For category \<^verbatim>\<open>ai\<close> and slug \<^verbatim>\<open>post1\<close>, the attribute
  \<^verbatim>\<open>src="./images/a.png"\<close> is rewritten to \<^verbatim>\<open>src="/blogs/ai/post1/images/a.png"\<close> in local
  mode and to the external base followed by \<^verbatim>\<open>/blogs/ai/post1/images/a.png\<close> in
  published mode, and the spelling \<^verbatim>\<open>images/\<close> is rewritten the same way. The singular
  spellings \<^verbatim>\<open>./image/\<close> and \<^verbatim>\<open>image/\<close> are rewritten to the article's singular directory,
  \<^verbatim>\<open>/blogs/ai/post1/image/a.png\<close> after the same base, and \<^verbatim>\<open>../images/\<close> to the shared
  image pool \<^verbatim>\<open>/blogs/images/a.png\<close> after the same base.
\<close>

theorem C5_path_rewriting:
  \<open>rewritePaths True ''ai'' ''post1'' ''src="./images/a.png"'' = ''src="/blogs/ai/post1/images/a.png"''
   \<and> rewritePaths False ''ai'' ''post1'' ''src="./images/a.png"'' = ''src="'' @ gitHubBase @ ''/blogs/ai/post1/images/a.png"''
   \<and> rewritePaths True ''ai'' ''post1'' ''src="images/a.png"'' = ''src="/blogs/ai/post1/images/a.png"''
   \<and> rewritePaths False ''ai'' ''post1'' ''src="images/a.png"'' = ''src="'' @ gitHubBase @ ''/blogs/ai/post1/images/a.png"''
   \<and> rewritePaths True ''ai'' ''post1'' ''src="./image/a.png"'' = ''src="/blogs/ai/post1/image/a.png"''
   \<and> rewritePaths False ''ai'' ''post1'' ''src="./image/a.png"'' = ''src="'' @ gitHubBase @ ''/blogs/ai/post1/image/a.png"''
   \<and> rewritePaths True ''ai'' ''post1'' ''src="image/a.png"'' = ''src="/blogs/ai/post1/image/a.png"''
   \<and> rewritePaths False ''ai'' ''post1'' ''src="image/a.png"'' = ''src="'' @ gitHubBase @ ''/blogs/ai/post1/image/a.png"''
   \<and> rewritePaths True ''ai'' ''post1'' ''src="../images/a.png"'' = ''src="/blogs/images/a.png"''
   \<and> rewritePaths False ''ai'' ''post1'' ''src="../images/a.png"'' = ''src="'' @ gitHubBase @ ''/blogs/images/a.png"''\<close>
  by (intro conjI; code_simp)

text \<open>
  Claim C5 as stated gives the spellings \<^verbatim>\<open>./image/\<close> and \<^verbatim>\<open>image/\<close> the same result as
  \<^verbatim>\<open>./images/\<close>, that is, \<^verbatim>\<open>/blogs/ai/post1/images/a.png\<close>. The code keeps the singular
  directory name: the replacement for the singular spellings is the article's
  base followed by \<^verbatim>\<open>/image/\<close>, so the result is not the path of the plural spelling.
\<close>

theorem C5_singular_spelling_keeps_its_directory:
  \<open>rewritePaths True ''ai'' ''post1'' ''src="./image/a.png"'' = ''src="/blogs/ai/post1/image/a.png"''
   \<and> rewritePaths True ''ai'' ''post1'' ''src="./image/a.png"'' \<noteq> ''src="/blogs/ai/post1/images/a.png"''
   \<and> rewritePaths True ''ai'' ''post1'' ''src="./image/a.png"''
       \<noteq> rewritePaths True ''ai'' ''post1'' ''src="./images/a.png"''\<close>
  by (intro conjI; code_simp)

subsection \<open>Facts about the matcher\<close>

text \<open>Repetition of a character class, greedy and lazy, as plain recursions over the
  text: the forms the matcher takes on the patterns of the source.\<close>

fun greedyTry :: \<open>(char \<Rightarrow> bool) \<Rightarrow> mcont \<Rightarrow> mcont\<close> where
  \<open>greedyTry P k b [] c = k b [] c\<close>
| \<open>greedyTry P k b (x # xs) c =
     (if P x then (case greedyTry P k (x # b) xs c of Some r \<Rightarrow> Some r | None \<Rightarrow> k b (x # xs) c)
      else k b (x # xs) c)\<close>

fun lazyTry :: \<open>mcont \<Rightarrow> mcont\<close> where
  \<open>lazyTry k b [] c = k b [] c\<close>
| \<open>lazyTry k b (x # xs) c =
     (case k b (x # xs) c of Some r \<Rightarrow> Some r | None \<Rightarrow> lazyTry k (x # b) xs c)\<close>

lemma rm_Lit: \<open>rm (Lit l) b s c k = (if prefix l s then k (rev l @ b) (drop (length l) s) c else None)\<close>
proof (induction l arbitrary: b s rule: Lit.induct)
  case 1
  then show ?case by simp
next
  case (2 x)
  then show ?case by (cases s) auto
next
  case (3 x y ys)
  then show ?case by (cases s) auto
qed

lemma rm_seqs_Cons: \<open>rm (seqs (r # rs)) b s c k = rm r b s c (\<lambda>b' s' c'. rm (seqs rs) b' s' c' k)\<close>
  by (cases rs) simp_all

lemma rm_seqs_Nil: \<open>rm (seqs []) b s c k = k b s c\<close>
  by simp

declare Lit.simps [simp del]

declare seqs.simps [simp del]

declare rm_Lit [simp]

declare rm_seqs_Cons [simp]

declare rm_seqs_Nil [simp]

lemma starG_Cls: \<open>length s \<le> n \<Longrightarrow> starG n (rm (Cls P)) b s c k = greedyTry P k b s c\<close>
proof (induction n arbitrary: b s)
  case 0
  then show ?case by simp
next
  case (Suc n)
  show ?case
  proof (cases s)
    case Nil
    then show ?thesis by simp
  next
    case (Cons x xs)
    with Suc.prems have \<open>length xs \<le> n\<close> by simp
    from Suc.IH [OF this] Cons show ?thesis by simp
  qed
qed

lemma rm_Star_Cls [simp]: \<open>rm (Star (Cls P)) b s c k = greedyTry P k b s c\<close>
  by (simp add: starG_Cls)

declare rm.simps(6) [simp del]

declare rm.simps(7) [simp del]

lemma rm_Plus_Cls [simp]:
  \<open>rm (Plus (Cls P)) b s c k =
     (case s of [] \<Rightarrow> None | x # xs \<Rightarrow> if P x then greedyTry P k (x # b) xs c else None)\<close>
  by (simp add: Plus_def split: list.splits)

lemma starL_Any: \<open>length s \<le> n \<Longrightarrow> starL n (rm (Cls (\<lambda>_. True))) b s c k = lazyTry k b s c\<close>
proof (induction n arbitrary: b s)
  case 0
  then show ?case by simp
next
  case (Suc n)
  show ?case
  proof (cases s)
    case Nil
    then show ?thesis by (simp split: option.splits)
  next
    case (Cons x xs)
    with Suc.prems have \<open>length xs \<le> n\<close> by simp
    from Suc.IH [OF this] Cons show ?thesis by (simp split: option.splits)
  qed
qed

lemma rm_StarL_Any [simp]: \<open>rm (StarL AnyCh) b s c k = lazyTry k b s c\<close>
  by (simp add: AnyCh_def starL_Any rm.simps(7))

lemma greedyTry_max:
  assumes \<open>\<forall>x \<in> set xs. P x\<close> and \<open>ys = [] \<or> \<not> P (hd ys)\<close> and \<open>k (rev xs @ b) ys c \<noteq> None\<close>
  shows \<open>greedyTry P k b (xs @ ys) c = k (rev xs @ b) ys c\<close>
  using assms
proof (induction xs arbitrary: b)
  case Nil
  then show ?case by (cases ys) auto
next
  case (Cons x xs)
  then show ?case by auto
qed

lemma greedyTry_None: \<open>(\<And>b' s'. k b' s' c = None) \<Longrightarrow> greedyTry P k b s c = None\<close>
  by (induction s arbitrary: b) auto

lemma greedyTry_Some:
  \<open>greedyTry P k b s c = Some r \<Longrightarrow> \<exists>xs ys. s = xs @ ys \<and> (\<forall>x \<in> set xs. P x) \<and> k (rev xs @ b) ys c = Some r\<close>
proof (induction s arbitrary: b)
  case Nil
  then show ?case by auto
next
  case (Cons x s)
  show ?case
  proof (cases \<open>P x \<and> greedyTry P k (x # b) s c = Some r\<close>)
    case True
    from Cons.IH [of \<open>x # b\<close>] True obtain xs ys where
      \<open>s = xs @ ys\<close> \<open>\<forall>x \<in> set xs. P x\<close> \<open>k (rev xs @ x # b) ys c = Some r\<close> by blast
    then have \<open>x # s = (x # xs) @ ys \<and> (\<forall>x \<in> set (x # xs). P x) \<and> k (rev (x # xs) @ b) ys c = Some r\<close>
      using True by simp
    then show ?thesis by blast
  next
    case False
    with Cons.prems have \<open>k b (x # s) c = Some r\<close>
      by (auto split: if_splits option.splits)
    then have \<open>x # s = [] @ (x # s) \<and> (\<forall>x \<in> set []. P x) \<and> k (rev [] @ b) (x # s) c = Some r\<close> by simp
    then show ?thesis by blast
  qed
qed

lemma lazyTry_first:
  assumes \<open>\<forall>i < length xs. k (rev (take i xs) @ b) (drop i xs @ ys) c = None\<close>
  shows \<open>lazyTry k b (xs @ ys) c = lazyTry k (rev xs @ b) ys c\<close>
  using assms
proof (induction xs arbitrary: b)
  case Nil
  then show ?case by simp
next
  case (Cons x xs)
  from Cons.prems have h0: \<open>k b (x # xs @ ys) c = None\<close> by force
  have \<open>\<forall>i < length xs. k (rev (take i xs) @ x # b) (drop i xs @ ys) c = None\<close>
  proof (intro allI impI)
    fix i assume \<open>i < length xs\<close>
    then have \<open>Suc i < length (x # xs)\<close> by simp
    from Cons.prems [rule_format, OF this] show \<open>k (rev (take i xs) @ x # b) (drop i xs @ ys) c = None\<close>
      by simp
  qed
  from Cons.IH [OF this] h0 show ?case by simp
qed

lemma lazyTry_here: \<open>k b s c \<noteq> None \<Longrightarrow> lazyTry k b s c = k b s c\<close>
  by (cases s) auto

lemma lazyTry_None: \<open>(\<And>b' s'. k b' s' c = None) \<Longrightarrow> lazyTry k b s c = None\<close>
  by (induction s arbitrary: b) auto

lemma reMatchAt_Bos_nonempty: \<open>b \<noteq> [] \<Longrightarrow> reMatchAt (seqs (Bos # rs)) b s = None\<close>
  by (simp add: reMatchAt_def rm_seqs_Cons)

lemma reSearch_Bos_nonempty: \<open>b \<noteq> [] \<Longrightarrow> reSearch (seqs (Bos # rs)) b s = None\<close>
  by (induction s arbitrary: b) (simp_all add: reMatchAt_Bos_nonempty)

lemma reSearch_Bos:
  \<open>reSearch (seqs (Bos # rs)) [] s = map_option (\<lambda>(n, c). (0, n, c)) (reMatchAt (seqs (Bos # rs)) [] s)\<close>
  by (cases s) (auto simp: reSearch_Bos_nonempty split: option.splits)

lemma reExec_Bos:
  \<open>reExec (seqs (Bos # rs)) s = map_option snd (reMatchAt (seqs (Bos # rs)) [] s)\<close>
  by (simp add: reExec_def reSearch_Bos option.map_comp comp_def case_prod_unfold)

lemma reTest_Bos:
  \<open>reTest (seqs (Bos # rs)) s \<longleftrightarrow> reMatchAt (seqs (Bos # rs)) [] s \<noteq> None\<close>
  by (simp add: reTest_def reSearch_Bos)

subsection \<open>Options and body of a directive\<close>

text \<open>The rule of the specification, in its words: the option lines are the lines of
  option shape among the leading lines that are options or blank; the body is
  everything from the first line that is neither.\<close>

definition isOptionLine :: \<open>string \<Rightarrow> bool\<close> where
  \<open>isOptionLine l \<longleftrightarrow> reTest reOptionLine (trim l)\<close>

definition isBlankLine :: \<open>string \<Rightarrow> bool\<close> where
  \<open>isBlankLine l \<longleftrightarrow> trim l = []\<close>

definition leadingOptions :: \<open>string list \<Rightarrow> string list\<close> where
  \<open>leadingOptions bodyLines =
     map trim (filter isOptionLine (takeWhile (\<lambda>l. isOptionLine l \<or> isBlankLine l) bodyLines))\<close>

definition bodyAfterOptions :: \<open>string list \<Rightarrow> string list\<close> where
  \<open>bodyAfterOptions bodyLines = dropWhile (\<lambda>l. isOptionLine l \<or> isBlankLine l) bodyLines\<close>

lemma foldl_splitStep_body:
  \<open>\<not> inOptions st \<Longrightarrow>
     foldl splitStep st ls = st\<lparr>contentLines := contentLines st @ ls\<rparr>\<close>
proof (induction ls arbitrary: st)
  case Nil
  then show ?case by simp
next
  case (Cons l ls)
  have \<open>splitStep st l = st\<lparr>contentLines := contentLines st @ [l]\<rparr>\<close>
    using Cons.prems by (simp add: splitStep_def Let_def)
  then show ?case using Cons by simp
qed

lemma foldl_splitStep_options:
  \<open>inOptions st \<Longrightarrow>
     foldl splitStep st ls =
       st\<lparr>optionLines := optionLines st @ leadingOptions ls,
          contentLines := contentLines st @ bodyAfterOptions ls,
          inOptions := (bodyAfterOptions ls = [])\<rparr>\<close>
proof (induction ls arbitrary: st)
  case Nil
  then show ?case by (simp add: leadingOptions_def bodyAfterOptions_def)
next
  case (Cons l ls)
  consider (opt) \<open>isOptionLine l\<close> | (blank) \<open>\<not> isOptionLine l\<close> \<open>isBlankLine l\<close>
    | (body) \<open>\<not> isOptionLine l\<close> \<open>\<not> isBlankLine l\<close> by blast
  then show ?case
  proof cases
    case opt
    then have step: \<open>splitStep st l = st\<lparr>optionLines := optionLines st @ [trim l]\<rparr>\<close>
      using Cons.prems by (simp add: splitStep_def Let_def isOptionLine_def)
    have \<open>inOptions (splitStep st l)\<close> using Cons.prems step by simp
    from Cons.IH [OF this] opt step show ?thesis
      by (simp add: leadingOptions_def bodyAfterOptions_def)
  next
    case blank
    then have step: \<open>splitStep st l = st\<close>
      using Cons.prems by (simp add: splitStep_def Let_def isOptionLine_def isBlankLine_def)
    from Cons.IH [OF Cons.prems] blank step show ?thesis
      by (simp add: leadingOptions_def bodyAfterOptions_def)
  next
    case body
    then have step: \<open>splitStep st l = st\<lparr>inOptions := False, contentLines := contentLines st @ [l]\<rparr>\<close>
      using Cons.prems by (simp add: splitStep_def Let_def isOptionLine_def isBlankLine_def)
    have \<open>\<not> inOptions (splitStep st l)\<close> using step by simp
    from foldl_splitStep_body [OF this, of ls] body step show ?thesis
      by (simp add: leadingOptions_def bodyAfterOptions_def)
  qed
qed

lemma splitBody_eq:
  \<open>splitBody ls = \<lparr>optionLines = leadingOptions ls, contentLines = bodyAfterOptions ls,
                     inOptions = (bodyAfterOptions ls = [])\<rparr>\<close>
  unfolding splitBody_def
  by (subst foldl_splitStep_options) simp_all

text \<open>
  Claim C4. In a captured directive block the option lines are taken from the
  leading lines only, up to the first line that is neither an option nor blank;
  from that line on every line, option-shaped or not, is a content line, kept as
  it is, and the body handed to the output generator is these lines joined, trimmed
  at both ends and passed through the directive engine.
\<close>

theorem C4_options_end_at_first_body_line:
  \<open>optionLines (splitBody bodyLines) = leadingOptions bodyLines
   \<and> contentLines (splitBody bodyLines) = bodyAfterOptions bodyLines
   \<and> (directiveMatch line = Some (fence, name, title) \<and> findEnd fence 1 rest = Some e \<longrightarrow>
        pmdLines (line # rest) =
          generateDirectiveHtml name (trim title) (leadingOptions (take e rest))
            (parseMystDirectives (trim (joinWith nl (bodyAfterOptions (take e rest)))))
          # pmdLines (drop (Suc e) rest))\<close>
  by (simp add: splitBody_eq parseMystDirectives_def)

theorem C4_witness:
  \<open>directiveMatch '':::{note}'' = Some ('':::'', ''note'', [])
   \<and> findEnd '':::'' 1 ['':class: wide'', [], ''Body text'', '':later: kept'', '':::'', ''after''] = Some 4
   \<and> leadingOptions ['':class: wide'', [], ''Body text'', '':later: kept''] = ['':class: wide'']
   \<and> bodyAfterOptions ['':class: wide'', [], ''Body text'', '':later: kept''] = [''Body text'', '':later: kept'']
   \<and> pmdLines ['':::{note}'', '':class: wide'', [], ''Body text'', '':later: kept'', '':::'', ''after'']
       = [generateDirectiveHtml ''note'' [] ['':class: wide''] ''Body text\<newline>:later: kept'', ''after'']\<close>
proof -
  have m: \<open>directiveMatch '':::{note}'' = Some ('':::'', ''note'', [])\<close>
    by code_simp
  have e: \<open>findEnd '':::'' 1 ['':class: wide'', [], ''Body text'', '':later: kept'', '':::'', ''after''] = Some 4\<close>
    by code_simp
  have o: \<open>leadingOptions ['':class: wide'', [], ''Body text'', '':later: kept''] = ['':class: wide'']\<close>
    by code_simp
  have b: \<open>bodyAfterOptions ['':class: wide'', [], ''Body text'', '':later: kept''] = [''Body text'', '':later: kept'']\<close>
    by code_simp
  have t: \<open>trim [] = []\<close> by (simp add: trim_def)
  have p: \<open>parseMystDirectives (trim (joinWith nl [''Body text'', '':later: kept''])) = ''Body text\<newline>:later: kept''\<close>
    by code_simp
  have r: \<open>pmdLines [''after''] = [''after'']\<close>
    by code_simp
  from C4_options_end_at_first_body_line [of \<open>[]\<close> \<open>'':::{note}''\<close> \<open>'':::''\<close> \<open>''note''\<close> \<open>[]\<close>
      \<open>['':class: wide'', [], ''Body text'', '':later: kept'', '':::'', ''after'']\<close> 4] m e
  have \<open>pmdLines ['':::{note}'', '':class: wide'', [], ''Body text'', '':later: kept'', '':::'', ''after'']
       = generateDirectiveHtml ''note'' (trim []) (leadingOptions ['':class: wide'', [], ''Body text'', '':later: kept''])
           (parseMystDirectives (trim (joinWith nl (bodyAfterOptions ['':class: wide'', [], ''Body text'', '':later: kept'']))))
         # pmdLines [''after'']\<close>
    by simp
  with m e o b t p r show ?thesis by simp
qed

subsection \<open>Numbering of colon-fenced math\<close>

text \<open>The options of a colon-fenced math block in the words of the specification: a
  label line, an enumeration line, the label and the enumeration flag that the
  last such lines give, and the math that the other lines make up.\<close>

definition isLabelOpt :: \<open>string \<Rightarrow> bool\<close> where
  \<open>isLabelOpt l \<longleftrightarrow> reExec reLabelOpt (trim l) \<noteq> None\<close>

definition labelOf :: \<open>string \<Rightarrow> string\<close> where
  \<open>labelOf l = (case reExec reLabelOpt (trim l) of None \<Rightarrow> [] | Some c \<Rightarrow> capText c 1)\<close>

definition isEnumOpt :: \<open>string \<Rightarrow> bool\<close> where
  \<open>isEnumOpt l \<longleftrightarrow> \<not> isLabelOpt l \<and> reExec reEnumOpt (trim l) \<noteq> None\<close>

definition enumOf :: \<open>string \<Rightarrow> bool\<close> where
  \<open>enumOf l = (case reExec reEnumOpt (trim l) of None \<Rightarrow> True | Some c \<Rightarrow> capText c 1 = ''true'')\<close>

definition colonLabel :: \<open>string \<Rightarrow> string\<close> where
  \<open>colonLabel body =
     (let ls = filter isLabelOpt (splitCh CHR 0x0A body) in if ls = [] then [] else labelOf (last ls))\<close>

definition colonEnumerated :: \<open>string \<Rightarrow> bool\<close> where
  \<open>colonEnumerated body =
     (let es = filter isEnumOpt (splitCh CHR 0x0A body) in if es = [] then True else enumOf (last es))\<close>

definition colonMath :: \<open>string \<Rightarrow> string\<close> where
  \<open>colonMath body =
     trim (concat (map (\<lambda>l. l @ nl) (filter (\<lambda>l. \<not> isLabelOpt l \<and> \<not> isEnumOpt l) (splitCh CHR 0x0A body))))\<close>

lemma colonStep_label: \<open>isLabelOpt l \<Longrightarrow> colonStep st l = st\<lparr>label := labelOf l\<rparr>\<close>
  by (auto simp: colonStep_def isLabelOpt_def labelOf_def Let_def split: option.splits)

lemma colonStep_enum: \<open>isEnumOpt l \<Longrightarrow> colonStep st l = st\<lparr>enumerated := enumOf l\<rparr>\<close>
  by (auto simp: colonStep_def isLabelOpt_def isEnumOpt_def enumOf_def Let_def split: option.splits)

lemma colonStep_math:
  \<open>\<not> isLabelOpt l \<Longrightarrow> \<not> isEnumOpt l \<Longrightarrow> colonStep st l = st\<lparr>mathContent := mathContent st @ l @ nl\<rparr>\<close>
  by (auto simp: colonStep_def isLabelOpt_def isEnumOpt_def Let_def split: option.splits)

lemma foldl_colonStep:
  \<open>foldl colonStep st ls =
     \<lparr>mathContent = mathContent st
        @ concat (map (\<lambda>l. l @ nl) (filter (\<lambda>l. \<not> isLabelOpt l \<and> \<not> isEnumOpt l) ls)),
      label = (if filter isLabelOpt ls = [] then label st else labelOf (last (filter isLabelOpt ls))),
      enumerated = (if filter isEnumOpt ls = [] then enumerated st else enumOf (last (filter isEnumOpt ls)))\<rparr>\<close>
proof (induction ls rule: rev_induct)
  case Nil
  then show ?case by simp
next
  case (snoc l ls)
  consider (lab) \<open>isLabelOpt l\<close> | (enum) \<open>isEnumOpt l\<close> | (math) \<open>\<not> isLabelOpt l\<close> \<open>\<not> isEnumOpt l\<close>
    by blast
  then show ?case
  proof cases
    case lab
    then have \<open>\<not> isEnumOpt l\<close> by (simp add: isEnumOpt_def)
    with lab snoc show ?thesis by (simp add: colonStep_label)
  next
    case enum
    then have \<open>\<not> isLabelOpt l\<close> by (simp add: isEnumOpt_def)
    with enum snoc show ?thesis by (simp add: colonStep_enum)
  next
    case math
    with snoc show ?thesis by (simp add: colonStep_math)
  qed
qed

lemma colonLoopOf_eq:
  \<open>colonLoopOf body = \<lparr>mathContent = concat (map (\<lambda>l. l @ nl)
       (filter (\<lambda>l. \<not> isLabelOpt l \<and> \<not> isEnumOpt l) (splitCh CHR 0x0A body))),
     label = colonLabel body, enumerated = colonEnumerated body\<rparr>\<close>
  by (simp add: colonLoopOf_def foldl_colonStep colonLabel_def colonEnumerated_def Let_def)

lemma reLabelOpt_capture: \<open>reExec reLabelOpt s = Some c \<Longrightarrow> capText c 1 \<noteq> []\<close>
proof -
  let ?Q = \<open>\<lambda>c. \<not> isSpace c\<close>
  let ?fin = \<open>\<lambda>ys b' s' c'. Some (s', c'(1 \<mapsto> take (length ys - length s') ys))\<close>
  let ?K = \<open>\<lambda>b ys c0. rm (Plus (Cls ?Q)) b ys c0 (?fin ys)\<close>
  assume \<open>reExec reLabelOpt s = Some c\<close>
  then obtain n where \<open>reMatchAt (seqs [Bos, Lit '':label:'', Star (Cls isSpace), Grp 1 (Plus (Cls ?Q))]) [] s = Some (n, c)\<close>
    unfolding reLabelOpt_def reExec_Bos by auto
  then obtain s' where m: \<open>rm (seqs [Bos, Lit '':label:'', Star (Cls isSpace), Grp 1 (Plus (Cls ?Q))]) [] s
        (\<lambda>_. None) (\<lambda>b' s' c'. Some (s', c')) = Some (s', c)\<close>
    by (auto simp: reMatchAt_def)
  have \<open>\<exists>b t. greedyTry isSpace ?K b t (\<lambda>_. None) = Some (s', c)\<close>
    using m unfolding rm_seqs_Cons rm.simps(9) rm_Lit
    by (auto simp del: rm_Plus_Cls split: if_splits)
  then obtain b t where \<open>greedyTry isSpace ?K b t (\<lambda>_. None) = Some (s', c)\<close> by blast
  from greedyTry_Some [OF this] obtain b2 ys where k: \<open>?K b2 ys (\<lambda>_. None) = Some (s', c)\<close> by blast
  then obtain y ys' where ys: \<open>ys = y # ys'\<close>
    and g: \<open>greedyTry ?Q (?fin ys) (y # b2) ys' (\<lambda>_. None) = Some (s', c)\<close>
    by (auto split: list.splits if_splits)
  from greedyTry_Some [OF g] obtain xs2 ys2 where
    \<open>ys' = xs2 @ ys2\<close> \<open>?fin ys (rev xs2 @ y # b2) ys2 (\<lambda>_. None) = Some (s', c)\<close> by blast
  with ys have \<open>c = (\<lambda>_. None)(1 \<mapsto> y # xs2)\<close> by auto
  then show ?thesis by (simp add: capText_def)
qed

lemma labelOf_nonempty: \<open>isLabelOpt l \<Longrightarrow> labelOf l \<noteq> []\<close>
proof -
  assume \<open>isLabelOpt l\<close>
  then obtain c where c: \<open>reExec reLabelOpt (trim l) = Some c\<close>
    by (auto simp: isLabelOpt_def)
  from reLabelOpt_capture [OF c] c show ?thesis
    by (simp add: labelOf_def)
qed

lemma colonLabel_nonempty_iff:
  \<open>colonLabel body \<noteq> [] \<longleftrightarrow> (\<exists>l \<in> set (splitCh CHR 0x0A body). isLabelOpt l)\<close>
proof -
  let ?ls = \<open>filter isLabelOpt (splitCh CHR 0x0A body)\<close>
  show ?thesis
  proof (cases \<open>?ls = []\<close>)
    case True
    then show ?thesis by (auto simp: colonLabel_def Let_def filter_empty_conv)
  next
    case False
    then have \<open>last ?ls \<in> set ?ls\<close> by (rule last_in_set)
    then have \<open>isLabelOpt (last ?ls)\<close> by simp
    with False show ?thesis
      by (auto simp: colonLabel_def Let_def filter_empty_conv dest: labelOf_nonempty)
  qed
qed

lemma numberEq_counter: \<open>eqCounter (numberEq l st) = Suc (eqCounter st)\<close>
  by (simp add: numberEq_def)

lemma numberEq_lookup: \<open>map_of (equations (numberEq l st)) l = Some (Suc (eqCounter st))\<close>
  by (simp add: numberEq_def update_conv')



subsection \<open>Video embeds\<close>

lemma strIncludes_sublist: \<open>strIncludes s p \<longleftrightarrow> sublist p s\<close>
  by (induction s) (auto simp: strIncludes_def sublist_Cons_right)

lemma strIncludes_appendI: \<open>strIncludes (xs @ p @ ys) p\<close>
  by (simp add: strIncludes_sublist)

lemma not_occurs_dropD:
  assumes \<open>\<not> strIncludes s p\<close> shows \<open>\<not> prefix p (drop i s)\<close>
proof
  assume \<open>prefix p (drop i s)\<close>
  then obtain zs where \<open>drop i s = p @ zs\<close> by (auto simp: prefix_def)
  then have \<open>s = take i s @ p @ zs\<close> by (metis append_take_drop_id)
  then have \<open>sublist p s\<close> unfolding sublist_def by blast
  with assms show False by (simp add: strIncludes_sublist)
qed

lemma reSearch_skip:
  assumes \<open>\<forall>i < length xs. reMatchAt r (rev (take i xs) @ b) (drop i xs @ ys) = None\<close>
  shows \<open>reSearch r b (xs @ ys) = map_option (\<lambda>(i, n, c). (i + length xs, n, c)) (reSearch r (rev xs @ b) ys)\<close>
  using assms
proof (induction xs arbitrary: b)
  case Nil
  then show ?case by (simp add: option.map_ident case_prod_unfold)
next
  case (Cons x xs)
  from Cons.prems have h0: \<open>reMatchAt r b (x # xs @ ys) = None\<close> by force
  have \<open>\<forall>i < length xs. reMatchAt r (rev (take i xs) @ x # b) (drop i xs @ ys) = None\<close>
  proof (intro allI impI)
    fix i assume \<open>i < length xs\<close>
    then have \<open>Suc i < length (x # xs)\<close> by simp
    from Cons.prems [rule_format, OF this]
    show \<open>reMatchAt r (rev (take i xs) @ x # b) (drop i xs @ ys) = None\<close> by simp
  qed
  from Cons.IH [OF this] h0 show ?case
    by (simp add: option.map_comp comp_def case_prod_unfold)
qed

lemma reSearch_here:
  \<open>reMatchAt r b s = Some (n, c) \<Longrightarrow> reSearch r b s = Some (0, n, c)\<close>
  by (cases s) auto

lemma reVParam_shape:
  assumes \<open>reMatchAt reVParam b s \<noteq> None\<close>
  shows \<open>\<exists>q t. s = q # CHR ''v'' # CHR ''='' # t\<close>
  using assms
  by (auto simp: reMatchAt_def reVParam_def rm_seqs_Cons rm_Lit prefix_def split: list.splits if_splits)

lemma reVParam_match:
  assumes \<open>q = CHR ''?'' \<or> q = CHR ''&''\<close> \<open>vid \<noteq> []\<close> \<open>CHR ''&'' \<notin> set vid\<close>
    \<open>rest = [] \<or> hd rest = CHR ''&''\<close>
  shows \<open>reMatchAt reVParam b (q # ''v='' @ vid @ rest) = Some (3 + length vid, (\<lambda>_. None)(1 \<mapsto> vid))\<close>
proof -
  obtain y ys where vid: \<open>vid = y # ys\<close> using assms(2) by (cases vid) auto
  let ?k = \<open>\<lambda>b' s' c'. Some (s', c'(1 \<mapsto> take (length (vid @ rest) - length s') (vid @ rest)))\<close>
  have \<open>greedyTry (\<lambda>c. c \<noteq> CHR ''&'') ?k (y # CHR ''='' # CHR ''v'' # q # b) (ys @ rest) (\<lambda>_. None)
          = ?k (rev ys @ y # CHR ''='' # CHR ''v'' # q # b) rest (\<lambda>_. None)\<close>
    using assms vid by (intro greedyTry_max) auto
  then show ?thesis
    using assms vid
    by (auto simp: reMatchAt_def reVParam_def rm_seqs_Cons rm_Lit NotCh_def)
qed

lemma reVParam_search:
  assumes \<open>q = CHR ''?'' \<or> q = CHR ''&''\<close> \<open>vid \<noteq> []\<close> \<open>CHR ''&'' \<notin> set vid\<close>
    \<open>rest = [] \<or> hd rest = CHR ''&''\<close> \<open>\<not> strIncludes pre ''v=''\<close>
  shows \<open>reExec reVParam (pre @ q # ''v='' @ vid @ rest) = Some ((\<lambda>_. None)(1 \<mapsto> vid))\<close>
proof -
  let ?ys = \<open>q # ''v='' @ vid @ rest\<close>
  have nomatch: \<open>\<forall>i < length pre. reMatchAt reVParam (rev (take i pre) @ []) (drop i pre @ ?ys) = None\<close>
  proof (intro allI impI, rule ccontr)
    fix i assume i: \<open>i < length pre\<close>
    assume \<open>reMatchAt reVParam (rev (take i pre) @ []) (drop i pre @ ?ys) \<noteq> None\<close>
    from reVParam_shape [OF this] obtain q' t where sh: \<open>drop i pre @ ?ys = q' # CHR ''v'' # CHR ''='' # t\<close>
      by blast
    from i obtain d ds where d: \<open>drop i pre = d # ds\<close> by (cases \<open>drop i pre\<close>) auto
    have \<open>prefix ''v='' ds\<close>
    proof (cases ds)
      case Nil
      with sh d assms(1) show ?thesis by auto
    next
      case (Cons e es)
      show ?thesis
      proof (cases es)
        case Nil
        with sh d Cons assms(1) show ?thesis by auto
      next
        case (Cons f fs)
        with sh d \<open>ds = e # es\<close> show ?thesis by auto
      qed
    qed
    moreover have \<open>ds = drop (Suc i) pre\<close> using d by (metis drop_Suc list.sel(3) tl_drop)
    ultimately show False using not_occurs_dropD [OF assms(5), of \<open>Suc i\<close>] by simp
  qed
  have \<open>reSearch reVParam [] (pre @ ?ys)
          = map_option (\<lambda>(i, n, c). (i + length pre, n, c)) (reSearch reVParam (rev pre @ []) ?ys)\<close>
    by (rule reSearch_skip [OF nomatch])
  also have \<open>reSearch reVParam (rev pre @ []) ?ys = Some (0, 3 + length vid, (\<lambda>_. None)(1 \<mapsto> vid))\<close>
    by (rule reSearch_here) (rule reVParam_match [OF assms(1-4)])
  finally show ?thesis by (simp add: reExec_def)
qed

lemma splitAcc_skip: \<open>splitAcc sep (length xs) cur (xs @ ys) = splitAcc sep 0 cur ys\<close>
  by (induction xs) auto

lemma splitAcc_no_occurrence:
  assumes \<open>\<forall>i < length xs. \<not> prefix sep (drop i xs @ ys)\<close>
  shows \<open>splitAcc sep 0 cur (xs @ ys) = splitAcc sep 0 (rev xs @ cur) ys\<close>
  using assms
proof (induction xs arbitrary: cur)
  case Nil
  then show ?case by simp
next
  case (Cons x xs)
  from Cons.prems have h0: \<open>\<not> prefix sep (x # xs @ ys)\<close> by force
  have \<open>\<forall>i < length xs. \<not> prefix sep (drop i xs @ ys)\<close>
  proof (intro allI impI)
    fix i assume \<open>i < length xs\<close>
    then have \<open>Suc i < length (x # xs)\<close> by simp
    from Cons.prems [rule_format, OF this] show \<open>\<not> prefix sep (drop i xs @ ys)\<close> by simp
  qed
  from Cons.IH [OF this] h0 show ?case by simp
qed

lemma splitAcc_at_separator:
  assumes \<open>sep \<noteq> []\<close>
  shows \<open>splitAcc sep 0 cur (sep @ ys) = rev cur # splitAcc sep 0 [] ys\<close>
proof -
  obtain x xs where sep: \<open>sep = x # xs\<close> using assms by (cases sep) auto
  have \<open>splitAcc sep 0 cur (x # xs @ ys) = rev cur # splitAcc sep (length xs) [] (xs @ ys)\<close>
    using sep by simp
  then show ?thesis using sep by (simp add: splitAcc_skip)
qed

lemma splitAcc_head: \<open>\<exists>p ps. splitAcc sep k cur s = (rev cur @ p) # ps\<close>
  by (induction sep k cur s rule: splitAcc.induct) auto

lemma splitAcc_head_char:
  assumes \<open>\<not> prefix sep (x # xs)\<close>
  shows \<open>\<exists>p ps. splitAcc sep 0 cur (x # xs) = (rev cur @ x # p) # ps\<close>
  using assms splitAcc_head [of sep 0 \<open>x # cur\<close> xs] by auto

lemma hd_splitCh_Cons: \<open>x \<noteq> c \<Longrightarrow> hd (splitCh c (x # xs)) = x # hd (splitCh c xs)\<close>
  using splitCh_nonempty [of c xs] by (cases \<open>splitCh c xs\<close>) auto

lemma hd_splitCh_no_sep: \<open>c \<notin> set xs \<Longrightarrow> hd (splitCh c xs) = xs\<close>
proof (induction xs)
  case Nil
  then show ?case by simp
next
  case (Cons a xs)
  then have a: \<open>a \<noteq> c\<close> and xs: \<open>c \<notin> set xs\<close> by auto
  have \<open>hd (splitCh c (a # xs)) = a # hd (splitCh c xs)\<close> by (rule hd_splitCh_Cons [OF a])
  also have \<open>hd (splitCh c xs) = xs\<close> by (rule Cons.IH [OF xs])
  finally show ?case .
qed

lemma hd_splitCh_before_sep: \<open>c \<notin> set xs \<Longrightarrow> hd (splitCh c (xs @ c # t)) = xs\<close>
proof (induction xs)
  case Nil
  then show ?case by simp
next
  case (Cons a xs)
  then have a: \<open>a \<noteq> c\<close> and xs: \<open>c \<notin> set xs\<close> by auto
  have \<open>hd (splitCh c (a # xs @ c # t)) = a # hd (splitCh c (xs @ c # t))\<close>
    by (rule hd_splitCh_Cons [OF a])
  also have \<open>hd (splitCh c (xs @ c # t)) = xs\<close> by (rule Cons.IH [OF xs])
  finally show ?case by simp
qed

lemma prefix_youtube_chars:
  assumes \<open>prefix ''youtu.be/'' (ds @ t)\<close> \<open>CHR ''/'' \<notin> set ds\<close> \<open>t = [] \<or> hd t = CHR ''?''\<close>
  shows \<open>ds = []\<close>
proof (rule ccontr)
  assume ne: \<open>ds \<noteq> []\<close>
  define y where \<open>y = ''youtu.be/''\<close>
  have y: \<open>length y = 9\<close> \<open>y ! 8 = CHR ''/''\<close> \<open>CHR ''?'' \<notin> set y\<close>
    by (simp_all add: y_def)
  from assms(1) obtain zs where eq: \<open>ds @ t = y @ zs\<close> by (auto simp: prefix_def y_def)
  have len: \<open>9 \<le> length ds + length t\<close>
    using arg_cong [OF eq, of length] y(1) by simp
  show False
  proof (cases \<open>8 < length ds\<close>)
    case True
    have \<open>(y @ zs) ! 8 = CHR ''/''\<close> using y by (simp add: nth_append)
    with eq have \<open>(ds @ t) ! 8 = CHR ''/''\<close> by simp
    with True have \<open>ds ! 8 = CHR ''/''\<close> by (simp add: nth_append)
    with True assms(2) show False by (metis nth_mem)
  next
    case False
    with len have \<open>t \<noteq> []\<close> by auto
    with assms(3) obtain t' where t: \<open>t = CHR ''?'' # t'\<close> by (cases t) auto
    have \<open>(ds @ t) ! length ds = CHR ''?''\<close> using t by simp
    with eq have \<open>(y @ zs) ! length ds = CHR ''?''\<close> by simp
    moreover have \<open>(y @ zs) ! length ds = y ! length ds\<close>
      using False y(1) by (simp add: nth_append)
    moreover have \<open>y ! length ds \<in> set y\<close>
      by (rule nth_mem) (use False y(1) in simp)
    ultimately show False using y(3) by simp
  qed
qed

lemma prefix_append_shorter:
  assumes \<open>prefix p (xs @ ys @ zs)\<close> \<open>length p \<le> length xs + length ys\<close>
  shows \<open>prefix p (xs @ ys)\<close>
proof -
  from assms(1) have \<open>take (length p) (xs @ ys @ zs) = p\<close>
    by (metis append_eq_conv_conj prefix_def)
  moreover have \<open>take (length p) (xs @ ys @ zs) = take (length p) (xs @ ys)\<close>
    using assms(2) by (metis append.assoc length_append take_append diff_is_0_eq take_0 append_Nil2)
  ultimately have \<open>take (length p) (xs @ ys) = p\<close> by simp
  then show ?thesis by (metis take_is_prefix)
qed

subsection \<open>AMS environments\<close>

lemma indexOf_first:
  \<open>indexOf s p = Some n \<Longrightarrow> \<forall>i < n. \<not> prefix p (drop i s)\<close>
proof (induction s arbitrary: n)
  case Nil
  then show ?case by (auto split: if_splits)
next
  case (Cons x xs)
  show ?case
  proof (cases \<open>prefix p (x # xs)\<close>)
    case True
    with Cons.prems show ?thesis by simp
  next
    case False
    with Cons.prems obtain m where m: \<open>indexOf xs p = Some m\<close> \<open>n = Suc m\<close> by auto
    show ?thesis
    proof (intro allI impI)
      fix i assume \<open>i < n\<close>
      show \<open>\<not> prefix p (drop i (x # xs))\<close>
      proof (cases i)
        case 0
        with False show ?thesis by simp
      next
        case (Suc j)
        with \<open>i < n\<close> m have \<open>j < m\<close> by simp
        with Cons.IH [OF m(1)] Suc show ?thesis by simp
      qed
    qed
  qed
qed

lemma replaceG_skip:
  \<open>replaceG r cb b (length xs) (xs @ ys) st = replaceG r cb (rev xs @ b) 0 ys st\<close>
  by (induction xs arbitrary: b) auto

lemma replaceG_whole:
  assumes \<open>s \<noteq> []\<close> \<open>reMatchAt r b s = Some (length s, c)\<close> \<open>\<And>b'. reMatchAt r b' [] = None\<close>
  shows \<open>replaceG r cb b 0 s st = cb b s [] c st\<close>
proof -
  obtain x xs where s: \<open>s = x # xs\<close> using assms(1) by (cases s) auto
  obtain rep st1 where cb: \<open>cb b s [] c st = (rep, st1)\<close> by (cases \<open>cb b s [] c st\<close>)
  have \<open>replaceG r cb (x # b) (length xs) (xs @ []) st1 = replaceG r cb (rev xs @ x # b) 0 [] st1\<close>
    by (rule replaceG_skip)
  then have \<open>replaceG r cb (x # b) (length xs) xs st1 = ([], st1)\<close>
    using assms(3) by simp
  with assms(2) s cb show ?thesis by simp
qed

lemma reSearch_SomeD:
  \<open>reSearch r b s = Some (i, n, c) \<Longrightarrow> reMatchAt r (rev (take i s) @ b) (drop i s) = Some (n, c)\<close>
proof (induction s arbitrary: b i)
  case Nil
  then show ?case by auto
next
  case (Cons x xs)
  show ?case
  proof (cases \<open>reMatchAt r b (x # xs)\<close>)
    case None
    with Cons.prems obtain j where j: \<open>reSearch r (x # b) xs = Some (j, n, c)\<close> \<open>i = Suc j\<close> by auto
    from Cons.IH [OF j(1)] j(2) show ?thesis by simp
  next
    case (Some a)
    with Cons.prems show ?thesis by auto
  qed
qed

lemma reLabel_matched:
  assumes \<open>reMatchAt reLabel b s = Some (n, c)\<close>
  shows \<open>take n s = bs @ ''label{'' @ capText c 1 @ ''}'' \<and> capText c 1 \<noteq> []\<close>
proof -
  let ?P = \<open>\<lambda>c. c \<noteq> CHR ''}''\<close>
  define L where \<open>L = bs @ ''label{''\<close>
  define u where \<open>u = drop (length L) s\<close>
  let ?fin = \<open>\<lambda>b' s' c'. rm (Chr CHR ''}'') b' s' (c'(1 \<mapsto> take (length u - length s') u))
                (\<lambda>b' s' c'. Some (s', c'))\<close>
  obtain t where t: \<open>rm reLabel b s (\<lambda>_. None) (\<lambda>b' s' c'. Some (s', c')) = Some (t, c)\<close>
    and n: \<open>n = length s - length t\<close>
    using assms by (auto simp: reMatchAt_def)
  have unf: \<open>rm reLabel b s (\<lambda>_. None) (\<lambda>b' s' c'. Some (s', c'))
      = (if prefix L s then rm (Plus (Cls ?P)) (rev L @ b) u (\<lambda>_. None) ?fin else None)\<close>
    by (simp add: reLabel_def NotCh_def L_def u_def del: rm_Plus_Cls rm.simps(1))
  from t unf have p: \<open>prefix L s\<close> and g0: \<open>rm (Plus (Cls ?P)) (rev L @ b) u (\<lambda>_. None) ?fin = Some (t, c)\<close>
    by (simp_all split: if_splits del: rm_Plus_Cls rm.simps(1))
  from p have s: \<open>s = L @ u\<close> by (auto simp: prefix_def u_def)
  from g0 obtain y ys where y: \<open>u = y # ys\<close>
    and g: \<open>greedyTry ?P ?fin (y # rev L @ b) ys (\<lambda>_. None) = Some (t, c)\<close>
    by (auto simp del: rm.simps(1) split: list.splits if_splits)
  from greedyTry_Some [OF g] obtain xs zs where
    z: \<open>ys = xs @ zs\<close> \<open>?fin (rev xs @ y # rev L @ b) zs (\<lambda>_. None) = Some (t, c)\<close> by blast
  from z(2) have zs: \<open>zs = CHR ''}'' # t\<close> and c: \<open>c = (\<lambda>_. None)(1 \<mapsto> take (length u - length zs) u)\<close>
    by (auto split: list.splits if_splits)
  have cap: \<open>capText c 1 = y # xs\<close> using c y z(1) by (simp add: capText_def)
  have \<open>s = (L @ (y # xs) @ ''}'') @ t\<close> using s y z(1) zs by simp
  then have \<open>take n s = L @ (y # xs) @ ''}''\<close>
    using n by simp
  with cap show ?thesis by (simp add: L_def)
qed

lemma take_drop_rebuild: \<open>take i s @ take n (drop i s) @ drop (i + n) s = s\<close>
  by (metis add.commute append_take_drop_id drop_drop)

lemma amsCb_result:
  assumes \<open>capText c 1 = body\<close>
  shows \<open>amsCb env m c st =
     (case reExec reLabel body of
        None \<Rightarrow>
          (''<div class="equation-block ams-env">'' @ bs @ ''['' @ bs @ ''begin{'' @ cleanEnv env @ ''}''
             @ body @ bs @ ''end{'' @ cleanEnv env @ ''}'' @ bs @ '']'' @ ''</div>'', st)
      | Some c' \<Rightarrow>
          (''<div class="equation-block ams-env" id="'' @ capText c' 1 @ ''">'' @ bs @ ''['' @ bs
             @ ''begin{'' @ cleanEnv env @ ''}'' @ body @ bs @ ''end{'' @ cleanEnv env @ ''}'' @ bs @ '']''
             @ ''<span class="equation-number">('' @ showNat (Suc (eqCounter st)) @ '')</span>'' @ ''</div>'',
           numberEq (capText c' 1) st))\<close>
proof (cases \<open>reSearch reLabel [] body\<close>)
  case None
  then show ?thesis
    using assms by (simp add: amsCb_def replaceFirstSt_def reExec_def Let_def)
next
  case (Some a)
  obtain i n c' where a: \<open>a = (i, n, c')\<close> by (cases a)
  from reSearch_SomeD [OF Some [unfolded a]] have \<open>reMatchAt reLabel (rev (take i body)) (drop i body) = Some (n, c')\<close>
    by simp
  from reLabel_matched [OF this] have
    lab: \<open>take n (drop i body) = bs @ ''label{'' @ capText c' 1 @ ''}''\<close> \<open>capText c' 1 \<noteq> []\<close> by simp_all
  have \<open>take i body @ (bs @ ''label{'' @ capText c' 1 @ ''}'') @ drop (i + n) body = body\<close>
    using take_drop_rebuild [of i body n] lab(1) by simp
  then have reb: \<open>take i body @ bs @ ''label{'' @ capText c' 1 @ ''}'' @ drop (i + n) body = body\<close>
    by simp
  show ?thesis
    using assms Some a lab(2) reb
    by (simp add: amsCb_def replaceFirstSt_def reExec_def Let_def amsLabelCb_def numberEq_counter)
qed

lemma reAms_match:
  assumes \<open>indexOf (body @ bs @ ''end{'' @ cleanEnv env @ ''}'') (bs @ ''end{'' @ cleanEnv env @ ''}'') = Some (length body)\<close>
  shows \<open>reMatchAt (reAms env) b (bs @ ''begin{'' @ cleanEnv env @ ''}'' @ body @ bs @ ''end{'' @ cleanEnv env @ ''}'')
     = Some (length (bs @ ''begin{'' @ cleanEnv env @ ''}'' @ body @ bs @ ''end{'' @ cleanEnv env @ ''}''),
             (\<lambda>_. None)(1 \<mapsto> body))\<close>
proof -
  define A where \<open>A = bs @ ''begin{'' @ cleanEnv env @ ''}''\<close>
  define E where \<open>E = bs @ ''end{'' @ cleanEnv env @ ''}''\<close>
  define k :: mcont where
    \<open>k = (\<lambda>b' s' c'. rm (Lit E) b' s' (c'(1 \<mapsto> take (length (body @ E) - length s') (body @ E)))
              (\<lambda>b' s' c'. Some (s', c')))\<close>
  have ix: \<open>indexOf (body @ E) E = Some (length body)\<close> using assms by (simp add: E_def)
  have first: \<open>\<forall>i < length body. k (rev (take i body) @ (rev A @ b)) (drop i body @ E) (\<lambda>_. None) = None\<close>
    using indexOf_first [OF ix] by (simp add: k_def)
  have here: \<open>k (rev body @ (rev A @ b)) E (\<lambda>_. None) = Some ([], (\<lambda>_. None)(1 \<mapsto> body))\<close>
    by (simp add: k_def)
  have \<open>lazyTry k (rev A @ b) (body @ E) (\<lambda>_. None) = lazyTry k (rev body @ (rev A @ b)) E (\<lambda>_. None)\<close>
    using first by (rule lazyTry_first [where xs = body and k = k and b = \<open>rev A @ b\<close> and ys = E and c = \<open>\<lambda>_. None\<close>])
  also have \<open>\<dots> = k (rev body @ (rev A @ b)) E (\<lambda>_. None)\<close>
    by (rule lazyTry_here) (simp add: here)
  finally have lz: \<open>lazyTry k (rev A @ b) (body @ E) (\<lambda>_. None) = Some ([], (\<lambda>_. None)(1 \<mapsto> body))\<close>
    using here by simp
  have \<open>rm (seqs [Lit A, Grp 1 (StarL AnyCh), Lit E]) b (A @ body @ E) (\<lambda>_. None) (\<lambda>b' s' c'. Some (s', c'))
       = lazyTry k (rev A @ b) (body @ E) (\<lambda>_. None)\<close>
    by (simp add: k_def cong: if_cong)
  with lz have \<open>reMatchAt (seqs [Lit A, Grp 1 (StarL AnyCh), Lit E]) b (A @ body @ E)
       = Some (length (A @ body @ E), (\<lambda>_. None)(1 \<mapsto> body))\<close>
    by (simp add: reMatchAt_def)
  then show ?thesis by (simp add: reAms_def A_def E_def)
qed

lemma reAms_not_empty: \<open>reMatchAt (reAms env) b [] = None\<close>
  by (simp add: reMatchAt_def reAms_def bs_def)



text \<open>The names that the entries of \<^verbatim>\<open>amsEnvs\<close> match, and three of the conversions
  through the whole resolver.\<close>

lemma amsEnvs_names:
  \<open>map cleanEnv amsEnvs = [''equation'', ''equation*'', ''align'', ''align*'', ''gather'', ''gather*'',
     ''multline'', ''multline*'', ''alignat'', ''alignat*'', ''split'']\<close>
  by code_simp

lemma ams_environments_in_resolver:
  \<open>parseMystMath (bs @ ''begin{equation*}x'' @ bs @ ''label{q}'' @ bs @ ''end{equation*}'')
      = ''<div class="equation-block ams-env" id="q">'' @ bs @ ''['' @ bs @ ''begin{equation*}x'' @ bs
          @ ''label{q}'' @ bs @ ''end{equation*}'' @ bs @ '']<span class="equation-number">(1)</span></div>''
   \<and> parseMystMath (bs @ ''begin{alignat}x'' @ bs @ ''label{q}'' @ bs @ ''end{alignat}'')
      = ''<div class="equation-block ams-env" id="q">'' @ bs @ ''['' @ bs @ ''begin{alignat}x'' @ bs
          @ ''label{q}'' @ bs @ ''end{alignat}'' @ bs @ '']<span class="equation-number">(1)</span></div>''
   \<and> parseMystMath (bs @ ''begin{split}x'' @ bs @ ''label{q}'' @ bs @ ''end{split}'')
      = ''<div class="equation-block ams-env" id="q">'' @ bs @ ''['' @ bs @ ''begin{split}x'' @ bs
          @ ''label{q}'' @ bs @ ''end{split}'' @ bs @ '']<span class="equation-number">(1)</span></div>''\<close>
  by (intro conjI; code_simp)


subsection \<open>References to equations\<close>

text \<open>
  Claim C2. A reference to a label that a labelled equation defines earlier in the
  document is meant to render as a link showing the registered number. The
  colon-fenced math directive is resolved by the last pass, after both reference
  passes have run, so a reference to a label defined that way finds the registry
  still without it: the equation is numbered \<^verbatim>\<open>(1)\<close> and registered, and the reference
  after it renders as the pending anchor \<^verbatim>\<open>(?)\<close>.
\<close>

theorem C2_reference_to_colon_fenced_label:
  \<open>parseMystMath '':::{math}\<newline>:label: e1\<newline>x\<newline>:::\<newline>See {eq}`e1`''
     = ''<div class="equation-block" id="e1">'' @ bs @ ''[x'' @ bs @ '']<span class="equation-number">(1)</span></div>\<newline>''
       @ ''See <a href="#e1" class="eq-ref eq-pending" data-label="e1">(?)</a>''\<close>
  by code_simp

text \<open>The four other labelled forms are registered before the reference passes, and
  a label defined by none of them gives the pending anchor.\<close>

lemma references_resolve_for_earlier_passes:
  \<open>parseMystMath (''```{math}\<newline>:label: a\<newline>x\<newline>```\<newline>$$y$$ (b)\<newline>$$z'' @ bs @ ''label{d}$$\<newline>{eq}`a` [](#b) {eq}`d` {eq}`zz`'')
     = ''<div class="equation-block" id="a">'' @ bs @ ''[x'' @ bs @ '']<span class="equation-number">(1)</span></div>\<newline>''
       @ ''<div class="equation-block" id="b">'' @ bs @ ''[y'' @ bs @ '']<span class="equation-number">(2)</span></div>\<newline>''
       @ ''<div class="equation-block" id="d">'' @ bs @ ''[z'' @ bs @ '']<span class="equation-number">(3)</span></div>\<newline>''
       @ ''<a href="#a" class="eq-ref">(1)</a> <a href="#b" class="eq-ref">(2)</a> <a href="#d" class="eq-ref">(3)</a> ''
       @ ''<a href="#zz" class="eq-ref eq-pending" data-label="zz">(?)</a>''\<close>
  by code_simp

subsection \<open>Equation numbers\<close>


text \<open>The passes of \<open>parseMystMathSt\<close> as a list, to speak of the state between two
  passes.\<close>

definition mathPasses :: \<open>(string \<times> mathState \<Rightarrow> string \<times> mathState) list\<close> where
  \<open>mathPasses =
     [mathPass reMathFence mathFenceCb, mathPass reDollarLabel dollarLabelCb]
     @ map amsPass amsEnvs
     @ [mathPass reDollar dollarCb, mathPass reEqRole refCb, mathPass reEmptyLink refCb,
        mathPass reMathRole inlineCb, mathPass reInlineDollar inlineCb,
        mathPass reColonMath colonMathCb]\<close>

definition runPasses :: \<open>nat \<Rightarrow> string \<Rightarrow> string \<times> mathState\<close> where
  \<open>runPasses k content =
     foldl (\<lambda>rs p. p rs) (content, \<lparr>equations = [], eqCounter = 0\<rparr>) (take k mathPasses)\<close>

lemma parseMystMathSt_runPasses: \<open>parseMystMathSt content = runPasses (length mathPasses) content\<close>
  by (simp add: parseMystMathSt_def runPasses_def mathPasses_def amsPasses_def Let_def foldl_map)

text \<open>
  How a state \<open>t\<close> can follow a state \<open>s\<close>: the counter does not decrease, the number
  of registrations that replaced an earlier one (the counter minus the size of
  the registry) does not decrease, and if no registration replaced an earlier one
  the registry has grown at its end by entries that carry the numbers after the
  old counter, in order.
\<close>

definition follows :: \<open>mathState \<Rightarrow> mathState \<Rightarrow> bool\<close> where
  \<open>follows s t \<longleftrightarrow>
     (length (equations s) \<le> eqCounter s \<longrightarrow>
        length (equations t) \<le> eqCounter t
        \<and> eqCounter s \<le> eqCounter t
        \<and> eqCounter s - length (equations s) \<le> eqCounter t - length (equations t)
        \<and> (eqCounter t - length (equations t) = eqCounter s - length (equations s) \<longrightarrow>
             (\<exists>new. equations t = equations s @ new
                    \<and> map snd new = [Suc (eqCounter s)..<Suc (eqCounter t)])))\<close>

lemma follows_refl: \<open>follows s s\<close>
  by (simp add: follows_def)

lemma follows_trans:
  assumes \<open>follows s t\<close> \<open>follows t u\<close>
  shows \<open>follows s u\<close>
  unfolding follows_def
proof (intro impI)
  assume s: \<open>length (equations s) \<le> eqCounter s\<close>
  with assms(1) have st: \<open>length (equations t) \<le> eqCounter t\<close> \<open>eqCounter s \<le> eqCounter t\<close>
    \<open>eqCounter s - length (equations s) \<le> eqCounter t - length (equations t)\<close>
    and st_eq: \<open>eqCounter t - length (equations t) = eqCounter s - length (equations s) \<Longrightarrow>
       \<exists>new. equations t = equations s @ new \<and> map snd new = [Suc (eqCounter s)..<Suc (eqCounter t)]\<close>
    by (auto simp: follows_def)
  from st(1) assms(2) have tu: \<open>length (equations u) \<le> eqCounter u\<close> \<open>eqCounter t \<le> eqCounter u\<close>
    \<open>eqCounter t - length (equations t) \<le> eqCounter u - length (equations u)\<close>
    and tu_eq: \<open>eqCounter u - length (equations u) = eqCounter t - length (equations t) \<Longrightarrow>
       \<exists>new. equations u = equations t @ new \<and> map snd new = [Suc (eqCounter t)..<Suc (eqCounter u)]\<close>
    by (auto simp: follows_def)
  have app: \<open>\<exists>new. equations u = equations s @ new \<and> map snd new = [Suc (eqCounter s)..<Suc (eqCounter u)]\<close>
    if eq: \<open>eqCounter u - length (equations u) = eqCounter s - length (equations s)\<close>
  proof -
    from eq st(3) tu(3) have e1: \<open>eqCounter t - length (equations t) = eqCounter s - length (equations s)\<close>
      and e2: \<open>eqCounter u - length (equations u) = eqCounter t - length (equations t)\<close> by simp_all
    from st_eq [OF e1] obtain n1 where n1: \<open>equations t = equations s @ n1\<close>
      \<open>map snd n1 = [Suc (eqCounter s)..<Suc (eqCounter t)]\<close> by blast
    from tu_eq [OF e2] obtain n2 where n2: \<open>equations u = equations t @ n2\<close>
      \<open>map snd n2 = [Suc (eqCounter t)..<Suc (eqCounter u)]\<close> by blast
    have \<open>[Suc (eqCounter s)..<Suc (eqCounter t)] @ [Suc (eqCounter t)..<Suc (eqCounter u)]
            = [Suc (eqCounter s)..<Suc (eqCounter u)]\<close>
    proof -
      from tu(2) obtain d where d: \<open>Suc (eqCounter u) = Suc (eqCounter t) + d\<close>
        by (metis Suc_le_mono le_Suc_ex)
      from st(2) have \<open>Suc (eqCounter s) \<le> Suc (eqCounter t)\<close> by simp
      from upt_add_eq_append [OF this, of d] d show ?thesis by simp
    qed
    with n1 n2 have \<open>equations u = equations s @ (n1 @ n2)
        \<and> map snd (n1 @ n2) = [Suc (eqCounter s)..<Suc (eqCounter u)]\<close> by simp
    then show ?thesis by blast
  qed
  from st tu app show \<open>length (equations u) \<le> eqCounter u
        \<and> eqCounter s \<le> eqCounter u
        \<and> eqCounter s - length (equations s) \<le> eqCounter u - length (equations u)
        \<and> (eqCounter u - length (equations u) = eqCounter s - length (equations s) \<longrightarrow>
             (\<exists>new. equations u = equations s @ new
                    \<and> map snd new = [Suc (eqCounter s)..<Suc (eqCounter u)]))\<close>
    by auto
qed

lemma update_absent: \<open>k \<notin> fst ` set al \<Longrightarrow> AList.update k v al = al @ [(k, v)]\<close>
  by (induction al) auto

lemma length_update_present: \<open>k \<in> fst ` set al \<Longrightarrow> length (AList.update k v al) = length al\<close>
  by (induction al) auto

lemma follows_numberEq: \<open>follows s (numberEq l s)\<close>
proof (cases \<open>l \<in> fst ` set (equations s)\<close>)
  case True
  then have \<open>length (equations (numberEq l s)) = length (equations s)\<close>
    by (simp add: numberEq_def length_update_present)
  then show ?thesis by (auto simp: follows_def numberEq_def)
next
  case False
  then have \<open>equations (numberEq l s) = equations s @ [(l, Suc (eqCounter s))]\<close>
    by (simp add: numberEq_def update_absent)
  then show ?thesis by (auto simp: follows_def numberEq_def)
qed

lemma replaceG_follows:
  assumes \<open>\<And>b m a c st. follows st (snd (cb b m a c st))\<close>
  shows \<open>follows st (snd (replaceG r cb b k s st))\<close>
  using assms
proof (induction r cb b k s st rule: replaceG.induct)
  case (1 r cb b k st)
  then show ?case by (auto simp: follows_refl split: option.splits)
next
  case (2 r cb b k x xs st)
  then show ?case by simp
next
  case (3 r cb b x xs st)
  show ?case
  proof (cases \<open>reMatchAt r b (x # xs)\<close>)
    case None
    with "3.IH"(1) "3.prems" show ?thesis by (simp split: prod.splits) (metis snd_conv)
  next
    case (Some p)
    obtain n c where p: \<open>p = (n, c)\<close> by (cases p)
    obtain rep st1 where cb: \<open>cb b (take n (x # xs)) (drop n (x # xs)) c st = (rep, st1)\<close>
      by (cases \<open>cb b (take n (x # xs)) (drop n (x # xs)) c st\<close>)
    have f1: \<open>follows st st1\<close>
      using "3.prems" [of st b \<open>take n (x # xs)\<close> \<open>drop n (x # xs)\<close> c] cb by simp
    show ?thesis
    proof (cases \<open>n = 0\<close>)
      case True
      have \<open>follows st1 (snd (replaceG r cb (x # b) 0 xs st1))\<close>
        using "3.IH"(2) [OF Some [unfolded p] refl cb [symmetric] True] "3.prems" by blast
      with f1 have \<open>follows st (snd (replaceG r cb (x # b) 0 xs st1))\<close> by (rule follows_trans)
      with True Some p cb show ?thesis by (auto split: prod.splits)
    next
      case False
      have \<open>follows st1 (snd (replaceG r cb (x # b) (n - 1) xs st1))\<close>
        using "3.IH"(3) [OF Some [unfolded p] refl cb [symmetric] False] "3.prems" by blast
      with f1 have \<open>follows st (snd (replaceG r cb (x # b) (n - 1) xs st1))\<close> by (rule follows_trans)
      with False Some p cb show ?thesis by (auto split: prod.splits)
    qed
  qed
qed

lemma mathPass_follows:
  assumes \<open>\<And>m c st. follows st (snd (cb m c st))\<close>
  shows \<open>follows (snd rs) (snd (mathPass r cb rs))\<close>
  unfolding mathPass_def replaceAllSt_def
  by (rule replaceG_follows) (rule assms)

lemma mathFenceCb_follows: \<open>follows st (snd (mathFenceCb m c st))\<close>
  by (simp add: mathFenceCb_def Let_def follows_refl follows_numberEq)

lemma dollarLabelCb_follows: \<open>follows st (snd (dollarLabelCb m c st))\<close>
  by (simp add: dollarLabelCb_def Let_def follows_numberEq)

lemma dollarCb_follows: \<open>follows st (snd (dollarCb m c st))\<close>
  by (simp add: dollarCb_def Let_def follows_refl follows_numberEq split: prod.splits)

lemma refCb_follows: \<open>follows st (snd (refCb m c st))\<close>
  by (simp add: refCb_def Let_def follows_refl split: eqRead.splits)

lemma inlineCb_follows: \<open>follows st (snd (inlineCb m c st))\<close>
  by (simp add: inlineCb_def follows_refl)

lemma colonMathCb_follows: \<open>follows st (snd (colonMathCb m c st))\<close>
  by (simp add: colonMathCb_def Let_def follows_refl follows_numberEq)

lemma amsCb_follows: \<open>follows st (snd (amsCb env m c st))\<close>
proof (cases \<open>reSearch reLabel [] (capText c 1)\<close>)
  case None
  then show ?thesis by (simp add: amsCb_def replaceFirstSt_def Let_def follows_refl)
next
  case (Some a)
  obtain i n c' where \<open>a = (i, n, c')\<close> by (cases a)
  with Some show ?thesis
    by (simp add: amsCb_def replaceFirstSt_def Let_def amsLabelCb_def follows_numberEq)
qed

lemma amsPass_follows: \<open>follows (snd rs) (snd (amsPass env rs))\<close>
  unfolding amsPass_def replaceAllSt_def
  by (rule replaceG_follows) (rule amsCb_follows)

lemma mathPasses_follow: \<open>p \<in> set mathPasses \<Longrightarrow> follows (snd rs) (snd (p rs))\<close>
  by (auto simp: mathPasses_def mathPass_follows amsPass_follows mathFenceCb_follows
      dollarLabelCb_follows dollarCb_follows refCb_follows inlineCb_follows colonMathCb_follows)

lemma foldl_passes_follow:
  assumes \<open>set ps \<subseteq> set mathPasses\<close>
  shows \<open>follows (snd rs) (snd (foldl (\<lambda>rs p. p rs) rs ps))\<close>
  using assms
proof (induction ps arbitrary: rs)
  case Nil
  then show ?case by (simp add: follows_refl)
next
  case (Cons p ps)
  then have \<open>follows (snd rs) (snd (p rs))\<close> by (simp add: mathPasses_follow)
  moreover have \<open>follows (snd (p rs)) (snd (foldl (\<lambda>rs p. p rs) (p rs) ps))\<close>
    using Cons by simp
  ultimately show ?case by (simp add: follows_trans)
qed

lemma runPasses_follow:
  assumes \<open>j \<le> k\<close>
  shows \<open>follows (snd (runPasses j content)) (snd (runPasses k content))\<close>
proof -
  have \<open>take k mathPasses = take j mathPasses @ drop j (take k mathPasses)\<close>
    using assms by (metis append_take_drop_id min.absorb1 take_take)
  then have \<open>runPasses k content = foldl (\<lambda>rs p. p rs) (runPasses j content) (drop j (take k mathPasses))\<close>
    unfolding runPasses_def by (metis foldl_append)
  moreover have \<open>set (drop j (take k mathPasses)) \<subseteq> set mathPasses\<close>
    by (meson in_set_dropD in_set_takeD subsetI)
  ultimately show ?thesis by (simp add: foldl_passes_follow)
qed


lemma length_mathPasses: \<open>length mathPasses = 19\<close>
  by (simp add: mathPasses_def amsEnvs_def)


subsection \<open>Nested directives\<close>

lemma rm_Star_max:
  assumes \<open>\<forall>x \<in> set xs. P x\<close> \<open>ys = [] \<or> \<not> P (hd ys)\<close> \<open>k (rev xs @ b) ys c \<noteq> None\<close>
  shows \<open>rm (Star (Cls P)) b (xs @ ys) c k = k (rev xs @ b) ys c\<close>
  using assms by (simp add: greedyTry_max)

lemma rm_Grp_Star_max:
  assumes \<open>\<forall>x \<in> set xs. P x\<close> \<open>ys = [] \<or> \<not> P (hd ys)\<close> \<open>k (rev xs @ b) ys (c(n \<mapsto> xs)) \<noteq> None\<close>
  shows \<open>rm (Grp n (Star (Cls P))) b (xs @ ys) c k = k (rev xs @ b) ys (c(n \<mapsto> xs))\<close>
proof -
  let ?k = \<open>\<lambda>b' s' c'. k b' s' (c'(n \<mapsto> take (length (xs @ ys) - length s') (xs @ ys)))\<close>
  have \<open>greedyTry P ?k b (xs @ ys) c = ?k (rev xs @ b) ys c\<close>
    using assms by (intro greedyTry_max) simp_all
  then show ?thesis by simp
qed

lemma rm_Grp_Plus_max:
  assumes \<open>xs \<noteq> []\<close> \<open>\<forall>x \<in> set xs. P x\<close> \<open>ys = [] \<or> \<not> P (hd ys)\<close>
    \<open>k (rev xs @ b) ys (c(n \<mapsto> xs)) \<noteq> None\<close>
  shows \<open>rm (Grp n (Plus (Cls P))) b (xs @ ys) c k = k (rev xs @ b) ys (c(n \<mapsto> xs))\<close>
proof -
  obtain x xs' where xs: \<open>xs = x # xs'\<close> using assms(1) by (cases xs) auto
  let ?k = \<open>\<lambda>b' s' c'. k b' s' (c'(n \<mapsto> take (length (xs @ ys) - length s') (xs @ ys)))\<close>
  have \<open>greedyTry P ?k (x # b) (xs' @ ys) c = ?k (rev xs' @ x # b) ys c\<close>
    using assms xs by (intro greedyTry_max) simp_all
  then show ?thesis using xs assms(2) by simp
qed

lemma greedyTry_total: \<open>(\<And>b' s' c'. k b' s' c' \<noteq> None) \<Longrightarrow> greedyTry P k b s c \<noteq> None\<close>
  by (induction s arbitrary: b) (auto split: option.splits)

text \<open>The tail of the directive pattern after the name, \<^verbatim>\<open>\}\s*(.*)$\<close>.\<close>

lemma directive_tail:
  assumes \<open>\<forall>x \<in> set t. \<not> isLineTerm x\<close>
  shows \<open>rm (seqs [Chr CHR ''}'', Star (Cls isSpace), Grp 3 (Star Dot), Eos]) b (CHR ''}'' # t) c
            (\<lambda>b' s' c'. Some (s', c'))
         = Some ([], c(3 \<mapsto> dropWhile isSpace t))\<close>
proof -
  let ?fin = \<open>(\<lambda>b' s' c'. Some (s', c')) :: mcont\<close>
  let ?ws = \<open>takeWhile isSpace t\<close>
  let ?t' = \<open>dropWhile isSpace t\<close>
  let ?k3 = \<open>\<lambda>b' s' c'. rm (seqs [Eos]) b' s' c' ?fin\<close>
  let ?k2 = \<open>\<lambda>b' s' c'. rm (seqs [Grp 3 (Star Dot), Eos]) b' s' c' ?fin\<close>
  have t': \<open>\<forall>x \<in> set ?t'. \<not> isLineTerm x\<close> using assms by (meson set_dropWhileD)
  have g3: \<open>rm (Grp 3 (Star (Cls (\<lambda>c. \<not> isLineTerm c)))) b0 (?t' @ []) c0 ?k3
              = ?k3 (rev ?t' @ b0) [] (c0(3 \<mapsto> ?t'))\<close> for b0 c0
    by (rule rm_Grp_Star_max) (use t' in simp_all)
  have k2: \<open>?k2 b0 ?t' c0 = Some ([], c0(3 \<mapsto> ?t'))\<close> for b0 c0
    using g3 [of b0 c0] by (simp add: Dot_def)
  have \<open>rm (Star (Cls isSpace)) b0 (?ws @ ?t') c0 ?k2 = ?k2 (rev ?ws @ b0) ?t' c0\<close> for b0 c0
  proof (rule rm_Star_max)
    show \<open>\<forall>x \<in> set ?ws. isSpace x\<close> by (meson set_takeWhileD)
    show \<open>?t' = [] \<or> \<not> isSpace (hd ?t')\<close> by (metis hd_dropWhile)
    show \<open>?k2 (rev ?ws @ b0) ?t' c0 \<noteq> None\<close> using k2 by simp
  qed
  then have \<open>rm (Star (Cls isSpace)) b0 t c0 ?k2 = Some ([], c0(3 \<mapsto> ?t'))\<close> for b0 c0
    using k2 by simp
  then show ?thesis by simp
qed

text \<open>The pattern after the fence, \<^verbatim>\<open>\{([\w:-]+)\}\s*(.*)$\<close>.\<close>

definition reAfterFence :: re where
  \<open>reAfterFence =
     seqs [Chr CHR ''{'', Grp 2 (Plus (Cls isNameCh)), Chr CHR ''}'', Star (Cls isSpace),
           Grp 3 (Star Dot), Eos]\<close>

lemma reDirective_split:
  \<open>reDirective f = Seq Bos (Seq (Grp 1 (seqs [Chr f, Chr f, Chr f, Opt (Chr f)])) reAfterFence)\<close>
  by (simp add: reDirective_def reAfterFence_def seqs.simps)

lemma isNameCh_brace [simp]: \<open>\<not> isNameCh CHR ''}''\<close> \<open>\<not> isNameCh CHR ''{''\<close>
  by (simp_all add: isNameCh_def isWordCh_def isDigit_def isUpper_def isLower_def)

lemma isWordCh_colon [simp]: \<open>\<not> isWordCh CHR '':''\<close>
  by (simp add: isWordCh_def isDigit_def isUpper_def isLower_def)

lemma isSpace_fence [simp]:
  \<open>\<not> isSpace CHR '':''\<close> \<open>\<not> isSpace btick\<close> \<open>\<not> isSpace CHR ''{''\<close> \<open>\<not> isSpace CHR ''}''\<close>
  by (simp_all add: isSpace_def btick_def)

lemma btick_neq [simp]:
  \<open>btick \<noteq> CHR '':''\<close> \<open>CHR '':'' \<noteq> btick\<close> \<open>btick \<noteq> CHR ''{''\<close> \<open>CHR ''{'' \<noteq> btick\<close>
  by (simp_all add: btick_def)

lemma after_fence:
  assumes \<open>name \<noteq> []\<close> \<open>\<forall>x \<in> set name. isNameCh x\<close> \<open>\<forall>x \<in> set t. \<not> isLineTerm x\<close>
  shows \<open>rm reAfterFence b (CHR ''{'' # name @ CHR ''}'' # t) c (\<lambda>b' s' c'. Some (s', c'))
         = Some ([], c(2 \<mapsto> name, 3 \<mapsto> dropWhile isSpace t))\<close>
proof -
  let ?fin = \<open>(\<lambda>b' s' c'. Some (s', c')) :: mcont\<close>
  let ?tl = \<open>seqs [Chr CHR ''}'', Star (Cls isSpace), Grp 3 (Star Dot), Eos]\<close>
  let ?k = \<open>\<lambda>b' s' c'. rm ?tl b' s' c' ?fin\<close>
  have tl: \<open>?k b0 (CHR ''}'' # t) c0 = Some ([], c0(3 \<mapsto> dropWhile isSpace t))\<close> for b0 c0
    using assms(3) by (rule directive_tail)
  have \<open>rm (Grp 2 (Plus (Cls isNameCh))) b0 (name @ CHR ''}'' # t) c ?k
          = ?k (rev name @ b0) (CHR ''}'' # t) (c(2 \<mapsto> name))\<close> for b0
    by (rule rm_Grp_Plus_max) (use assms tl in simp_all)
  then have \<open>rm (Grp 2 (Plus (Cls isNameCh))) b0 (name @ CHR ''}'' # t) c ?k
          = Some ([], c(2 \<mapsto> name, 3 \<mapsto> dropWhile isSpace t))\<close> for b0
    using tl by simp
  then have g2: \<open>rm (Grp 2 (Plus (Cls isNameCh))) (CHR ''{'' # b) (name @ CHR ''}'' # t) c ?k
          = Some ([], c(2 \<mapsto> name, 3 \<mapsto> dropWhile isSpace t))\<close> .
  let ?s = \<open>CHR ''{'' # name @ CHR ''}'' # t\<close>
  let ?r2 = \<open>seqs [Grp 2 (Plus (Cls isNameCh)), Chr CHR ''}'', Star (Cls isSpace), Grp 3 (Star Dot), Eos]\<close>
  have \<open>rm reAfterFence b ?s c ?fin = rm (Chr CHR ''{'') b ?s c (\<lambda>b' s' c'. rm ?r2 b' s' c' ?fin)\<close>
    unfolding reAfterFence_def by (rule rm_seqs_Cons)
  also have \<open>\<dots> = rm ?r2 (CHR ''{'' # b) (name @ CHR ''}'' # t) c ?fin\<close>
    by (simp del: rm_seqs_Cons)
  also have \<open>\<dots> = rm (Grp 2 (Plus (Cls isNameCh))) (CHR ''{'' # b) (name @ CHR ''}'' # t) c ?k\<close>
    by (rule rm_seqs_Cons)
  also note g2
  finally show ?thesis .
qed

text \<open>The four fences that the two patterns of a directive line accept.\<close>

definition isFence :: \<open>string \<Rightarrow> bool\<close> where
  \<open>isFence F \<longleftrightarrow>
     (length F = 3 \<or> length F = 4) \<and> (F = replicate (length F) CHR '':'' \<or> F = replicate (length F) btick)\<close>

definition validName :: \<open>string \<Rightarrow> bool\<close> where
  \<open>validName name \<longleftrightarrow> name \<noteq> [] \<and> list_all isNameCh name\<close>

definition validTitle :: \<open>string \<Rightarrow> bool\<close> where
  \<open>validTitle t \<longleftrightarrow> list_all (\<lambda>c. \<not> isLineTerm c) t\<close>

definition openingLine :: \<open>string \<Rightarrow> string \<Rightarrow> string \<Rightarrow> string\<close> where
  \<open>openingLine F name t = F @ ''{'' @ name @ ''}'' @ t\<close>

text \<open>A line of plain text: not empty, no white space at either end, no fence
  character in front, no line terminator.\<close>

definition plainText :: \<open>string \<Rightarrow> bool\<close> where
  \<open>plainText l \<longleftrightarrow>
     l \<noteq> [] \<and> \<not> isSpace (hd l) \<and> \<not> isSpace (last l) \<and> hd l \<noteq> CHR '':'' \<and> hd l \<noteq> btick
     \<and> list_all (\<lambda>c. \<not> isLineTerm c) l\<close>

lemma fence_cases:
  assumes \<open>isFence F\<close>
  obtains f where \<open>f = CHR '':'' \<or> f = btick\<close> \<open>F = [f, f, f] \<or> F = [f, f, f, f]\<close>
proof -
  from assms obtain f where f: \<open>f = CHR '':'' \<or> f = btick\<close> and F: \<open>F = replicate (length F) f\<close>
    and n: \<open>length F = 3 \<or> length F = 4\<close>
    unfolding isFence_def by auto
  from n have \<open>F = [f, f, f] \<or> F = [f, f, f, f]\<close>
  proof
    assume \<open>length F = 3\<close>
    with F have \<open>F = replicate 3 f\<close> by simp
    then show ?thesis by (simp add: numeral_3_eq_3)
  next
    assume \<open>length F = 4\<close>
    with F have \<open>F = replicate 4 f\<close> by simp
    then show ?thesis by (simp add: numeral_eq_Suc)
  qed
  with f show ?thesis by (rule that)
qed

lemma fence_cases4:
  assumes \<open>isFence F\<close>
  shows \<open>F = [CHR '':'', CHR '':'', CHR '':''] \<or> F = [CHR '':'', CHR '':'', CHR '':'', CHR '':'']
       \<or> F = [btick, btick, btick] \<or> F = [btick, btick, btick, btick]\<close>
  using assms by (rule fence_cases) auto

lemma fenceCh_fence: \<open>isFence F \<Longrightarrow> replicate (length F) (fenceCh F) = F\<close>
  by (erule fence_cases) (auto simp: fenceCh_def)

lemma reDirective_opening:
  assumes \<open>f = CHR '':'' \<or> f = btick\<close> \<open>F = [f, f, f] \<or> F = [f, f, f, f]\<close>
    \<open>validName name\<close> \<open>validTitle t\<close>
  shows \<open>reExec (reDirective f) (openingLine F name t)
         = Some ((\<lambda>_. None)(1 \<mapsto> F, 2 \<mapsto> name, 3 \<mapsto> dropWhile isSpace t))\<close>
proof -
  let ?fin = \<open>(\<lambda>b' s' c'. Some (s', c')) :: mcont\<close>
  let ?rest = \<open>CHR ''{'' # name @ CHR ''}'' # t\<close>
  have af: \<open>rm reAfterFence b ?rest c ?fin = Some ([], c(2 \<mapsto> name, 3 \<mapsto> dropWhile isSpace t))\<close> for b c
    using assms(3,4) by (intro after_fence) (simp_all add: validName_def validTitle_def list_all_iff)
  have f: \<open>f \<noteq> CHR ''{''\<close> using assms(1) by auto
  have \<open>rm (reDirective f) [] (F @ ?rest) (\<lambda>_. None) ?fin
          = Some ([], (\<lambda>_. None)(1 \<mapsto> F, 2 \<mapsto> name, 3 \<mapsto> dropWhile isSpace t))\<close>
    using assms(2) f by (auto simp: reDirective_split rm_seqs_Cons Opt_def af)
  then have \<open>reMatchAt (reDirective f) [] (openingLine F name t)
          = Some (length (openingLine F name t), (\<lambda>_. None)(1 \<mapsto> F, 2 \<mapsto> name, 3 \<mapsto> dropWhile isSpace t))\<close>
    by (simp add: reMatchAt_def openingLine_def)
  then show ?thesis
    unfolding reDirective_def by (simp add: reExec_Bos)
qed

lemma reDirective_other:
  assumes \<open>l = [] \<or> hd l \<noteq> f\<close>
  shows \<open>reExec (reDirective f) l = None\<close>
proof -
  have \<open>reMatchAt (reDirective f) [] l = None\<close>
    using assms by (cases l) (auto simp: reDirective_split rm_seqs_Cons reMatchAt_def)
  then show ?thesis unfolding reDirective_def by (simp add: reExec_Bos)
qed

lemma reDirective_fence:
  assumes \<open>g = CHR '':'' \<or> g = btick\<close> \<open>F = [g, g, g] \<or> F = [g, g, g, g]\<close>
  shows \<open>reExec (reDirective f) F = None\<close>
proof -
  have \<open>reMatchAt (reDirective f) [] F = None\<close>
    using assms by (auto simp: reDirective_split rm_seqs_Cons reMatchAt_def Opt_def reAfterFence_def)
  then show ?thesis unfolding reDirective_def by (simp add: reExec_Bos)
qed

lemma directiveMatch_opening:
  assumes \<open>isFence F\<close> \<open>validName name\<close> \<open>validTitle t\<close>
  shows \<open>directiveMatch (openingLine F name t) = Some (F, name, dropWhile isSpace t)\<close>
proof -
  from assms(1) obtain f where f: \<open>f = CHR '':'' \<or> f = btick\<close> and F: \<open>F = [f, f, f] \<or> F = [f, f, f, f]\<close>
    by (rule fence_cases)
  have m: \<open>reExec (reDirective f) (openingLine F name t)
         = Some ((\<lambda>_. None)(1 \<mapsto> F, 2 \<mapsto> name, 3 \<mapsto> dropWhile isSpace t))\<close>
    using f F assms(2,3) by (rule reDirective_opening)
  show ?thesis
  proof (cases \<open>f = CHR '':''\<close>)
    case True
    with m show ?thesis by (simp add: directiveMatch_def capText_def)
  next
    case False
    then have b: \<open>f = btick\<close> using f by simp
    have \<open>reExec (reDirective CHR '':'') (openingLine F name t) = None\<close>
      using F b by (intro reDirective_other) (auto simp: openingLine_def)
    with m b show ?thesis by (simp add: directiveMatch_def capText_def)
  qed
qed

lemma directiveMatch_plain: \<open>plainText l \<Longrightarrow> directiveMatch l = None\<close>
  by (simp add: directiveMatch_def plainText_def reDirective_other)

lemma directiveMatch_fence: \<open>isFence F \<Longrightarrow> directiveMatch F = None\<close>
  by (erule fence_cases) (simp add: directiveMatch_def reDirective_fence)

text \<open>The two patterns of the scan for the closing fence, as conditions on the line.\<close>

lemma greedyTry_Eos:
  \<open>greedyTry P (\<lambda>b' s' c'. if s' = [] then Some (s', c') else None) b s c \<noteq> None \<longleftrightarrow> list_all P s\<close>
proof (induction s arbitrary: b)
  case Nil
  then show ?case by simp
next
  case (Cons x s)
  show ?case using Cons [of \<open>x # b\<close>] by (auto split: option.splits)
qed

lemma openingPattern_test:
  assumes \<open>isFence F\<close>
  shows \<open>reTest (openingPattern F) l \<longleftrightarrow>
           prefix F l \<and> (case drop (length F) l of [] \<Rightarrow> False
                          | x # xs \<Rightarrow> x = CHR ''{'' \<and> (case xs of [] \<Rightarrow> False | y # ys \<Rightarrow> isNameCh y))\<close>
    (is \<open>_ \<longleftrightarrow> ?rhs\<close>)
proof -
  let ?fin = \<open>(\<lambda>b' s' c'. Some (s', c')) :: mcont\<close>
  have gt: \<open>greedyTry isNameCh ?fin b s c \<noteq> None\<close> for b s c
    by (rule greedyTry_total) simp
  have \<open>reTest (openingPattern F) l \<longleftrightarrow>
          reMatchAt (seqs [Bos, Lit F, Chr CHR ''{'', Plus (Cls isNameCh)]) [] l \<noteq> None\<close>
    unfolding openingPattern_def fenceCh_fence [OF assms] by (rule reTest_Bos)
  also have \<open>\<dots> \<longleftrightarrow> rm (seqs [Bos, Lit F, Chr CHR ''{'', Plus (Cls isNameCh)]) [] l (\<lambda>_. None) ?fin \<noteq> None\<close>
    by (simp add: reMatchAt_def)
  also have \<open>\<dots> \<longleftrightarrow> ?rhs\<close>
  proof (cases \<open>prefix F l\<close>)
    case False
    then show ?thesis by simp
  next
    case True
    show ?thesis
    proof (cases \<open>drop (length F) l\<close>)
      case Nil
      with True show ?thesis by simp
    next
      case (Cons x xs)
      show ?thesis
      proof (cases xs)
        case Nil
        with True Cons show ?thesis by simp
      next
        case c2: (Cons y ys)
        show ?thesis
          using True Cons c2 gt [of \<open>y # x # rev F\<close> ys \<open>\<lambda>_. None\<close>] by auto
      qed
    qed
  qed
  finally show ?thesis .
qed

lemma closingPattern_test:
  assumes \<open>isFence F\<close>
  shows \<open>reTest (closingPattern F) l \<longleftrightarrow> prefix F l \<and> list_all isSpace (drop (length F) l)\<close>
proof -
  have \<open>reTest (closingPattern F) l \<longleftrightarrow>
          reMatchAt (seqs [Bos, Lit F, Star (Cls isSpace), Eos]) [] l \<noteq> None\<close>
    unfolding closingPattern_def fenceCh_fence [OF assms] by (rule reTest_Bos)
  also have \<open>\<dots> \<longleftrightarrow>
      rm (seqs [Bos, Lit F, Star (Cls isSpace), Eos]) [] l (\<lambda>_. None) (\<lambda>b' s' c'. Some (s', c')) \<noteq> None\<close>
    by (simp add: reMatchAt_def)
  also have \<open>\<dots> \<longleftrightarrow> prefix F l \<and> list_all isSpace (drop (length F) l)\<close>
    using greedyTry_Eos [of isSpace \<open>rev F\<close> \<open>drop (length F) l\<close> \<open>\<lambda>_. None\<close>]
    by (cases \<open>prefix F l\<close>) simp_all
  finally show ?thesis .
qed

lemma plain_not_prefix: \<open>isFence F \<Longrightarrow> plainText l \<Longrightarrow> \<not> prefix F l\<close>
  by (erule fence_cases) (auto simp: plainText_def prefix_def)

lemma opening_plain: \<open>isFence F \<Longrightarrow> plainText l \<Longrightarrow> \<not> reTest (openingPattern F) l\<close>
  by (simp add: openingPattern_test plain_not_prefix)

lemma closing_plain: \<open>isFence F \<Longrightarrow> plainText l \<Longrightarrow> \<not> reTest (closingPattern F) l\<close>
  by (simp add: closingPattern_test plain_not_prefix)

lemma opening_fence: \<open>isFence F \<Longrightarrow> isFence G \<Longrightarrow> \<not> reTest (openingPattern F) G\<close>
  using fence_cases4 [of F] fence_cases4 [of G]
  by (simp add: openingPattern_test) (elim disjE; simp)

lemma closing_fence: \<open>isFence F \<Longrightarrow> isFence G \<Longrightarrow> reTest (closingPattern F) G \<longleftrightarrow> G = F\<close>
  using fence_cases4 [of F] fence_cases4 [of G]
  by (simp add: closingPattern_test) (elim disjE; simp)

lemma opening_opening:
  assumes \<open>isFence F\<close> \<open>isFence G\<close> \<open>validName name\<close>
  shows \<open>reTest (openingPattern F) (openingLine G name t) \<longleftrightarrow> G = F\<close>
proof -
  obtain y ys where name: \<open>name = y # ys\<close> \<open>isNameCh y\<close>
    using assms(3) by (cases name) (auto simp: validName_def)
  show ?thesis
    using fence_cases4 [OF assms(1)] fence_cases4 [OF assms(2)] name
    by (simp add: openingPattern_test [OF assms(1)] openingLine_def) (elim disjE; simp)
qed

lemma closing_opening:
  assumes \<open>isFence F\<close> \<open>isFence G\<close>
  shows \<open>\<not> reTest (closingPattern F) (openingLine G name t)\<close>
  using fence_cases4 [OF assms(1)] fence_cases4 [OF assms(2)]
  by (simp add: closingPattern_test [OF assms(1)] openingLine_def) (elim disjE; simp)

text \<open>Option lines and blank lines.\<close>

lemma reOptionLine_shape:
  assumes \<open>reTest reOptionLine s\<close>
  shows \<open>\<exists>x xs. s = CHR '':'' # x # xs \<and> isWordCh x\<close>
proof -
  have \<open>reMatchAt reOptionLine [] s \<noteq> None\<close>
    using assms unfolding reOptionLine_def by (simp add: reTest_Bos)
  then show ?thesis
    by (auto simp: reOptionLine_def reMatchAt_def split: list.splits if_splits)
qed

lemma trim_id: \<open>s \<noteq> [] \<Longrightarrow> \<not> isSpace (hd s) \<Longrightarrow> \<not> isSpace (last s) \<Longrightarrow> trim s = s\<close>
proof -
  assume s: \<open>s \<noteq> []\<close> \<open>\<not> isSpace (hd s)\<close> \<open>\<not> isSpace (last s)\<close>
  then have 1: \<open>dropWhile isSpace s = s\<close> by (cases s) auto
  have \<open>dropWhile isSpace (rev s) = rev s\<close>
    using s by (simp add: dropWhile_eq_self_iff hd_rev)
  with 1 show ?thesis by (simp add: trim_def)
qed

lemma trim_Cons2:
  assumes \<open>\<not> isSpace a\<close> \<open>\<not> isSpace b\<close>
  shows \<open>\<exists>r. trim (a # b # s) = a # b # r\<close>
proof -
  have \<open>\<exists>zs. dropWhile isSpace (rev s @ [b, a]) = zs @ [b, a]\<close>
    using assms by (cases \<open>\<forall>x \<in> set (rev s). isSpace x\<close>) (auto simp: dropWhile_append)
  then obtain zs where \<open>dropWhile isSpace (rev s @ [b, a]) = zs @ [b, a]\<close> ..
  then have \<open>trim (a # b # s) = a # b # rev zs\<close>
    using assms by (simp add: trim_def)
  then show ?thesis ..
qed

lemma content_plain: \<open>plainText l \<Longrightarrow> \<not> isOptionLine l \<and> \<not> isBlankLine l\<close>
proof -
  assume l: \<open>plainText l\<close>
  then have \<open>trim l = l\<close> by (simp add: plainText_def trim_id)
  with l show ?thesis
    by (cases l) (auto simp: isOptionLine_def isBlankLine_def plainText_def dest!: reOptionLine_shape)
qed

lemma content_opening:
  assumes \<open>isFence G\<close>
  shows \<open>\<not> isOptionLine (openingLine G name t) \<and> \<not> isBlankLine (openingLine G name t)\<close>
proof -
  from assms obtain g where g: \<open>g = CHR '':'' \<or> g = btick\<close> and G: \<open>G = [g, g, g] \<or> G = [g, g, g, g]\<close>
    by (rule fence_cases)
  then obtain s where \<open>openingLine G name t = g # g # s\<close> by (auto simp: openingLine_def)
  moreover have \<open>\<exists>r. trim (g # g # s) = g # g # r\<close>
    using g by (intro trim_Cons2) auto
  ultimately obtain r where \<open>trim (openingLine G name t) = g # g # r\<close> by auto
  then show ?thesis
    using g by (auto simp: isOptionLine_def isBlankLine_def dest!: reOptionLine_shape)
qed

lemma splitBody_content:
  assumes \<open>ls = [] \<or> (\<not> isOptionLine (hd ls) \<and> \<not> isBlankLine (hd ls))\<close>
  shows \<open>optionLines (splitBody ls) = []\<close> \<open>contentLines (splitBody ls) = ls\<close>
  using assms by (cases ls; simp add: splitBody_eq leadingOptions_def bodyAfterOptions_def)+

text \<open>Strings without a carriage return, and \<^verbatim>\<open>join\<close> followed by \<^verbatim>\<open>split\<close>.\<close>

lemma replaceG_no_match:
  assumes \<open>\<And>b' s'. suffix s' s \<Longrightarrow> reMatchAt r b' s' = None\<close>
  shows \<open>replaceG r cb b 0 s st = (s, st)\<close>
  using assms
proof (induction s arbitrary: b)
  case Nil
  then show ?case by simp
next
  case (Cons x xs)
  have \<open>replaceG r cb (x # b) 0 xs st = (xs, st)\<close>
    by (rule Cons.IH) (simp add: Cons.prems suffix_ConsI)
  moreover have \<open>reMatchAt r b (x # xs) = None\<close> by (simp add: Cons.prems)
  ultimately show ?case by simp
qed

lemma normalizeNewlines_id:
  assumes \<open>CHR 0x0D \<notin> set s\<close>
  shows \<open>normalizeNewlines s = s\<close>
proof -
  have no: \<open>s' = [] \<or> hd s' \<noteq> CHR 0x0D\<close> if \<open>suffix s' s\<close> for s'
  proof (cases s')
    case Nil
    then show ?thesis by simp
  next
    case (Cons y ys)
    then have \<open>y \<in> set s\<close> using that by (auto simp: suffix_def)
    with assms Cons show ?thesis by auto
  qed
  have \<open>reMatchAt (Lit [CHR 0x0D, CHR 0x0A]) b' s' = None\<close> if \<open>suffix s' s\<close> for b' s'
    using no [OF that] by (cases s') (auto simp: reMatchAt_def)
  then have 1: \<open>replaceAllT (Lit [CHR 0x0D, CHR 0x0A]) 0 nl s = s\<close>
    unfolding replaceAllT_def by (subst replaceG_no_match) simp_all
  have \<open>reMatchAt (Chr CHR 0x0D) b' s' = None\<close> if \<open>suffix s' s\<close> for b' s'
    using no [OF that] by (cases s') (auto simp: reMatchAt_def)
  then have 2: \<open>replaceAllT (Chr CHR 0x0D) 0 nl s = s\<close>
    unfolding replaceAllT_def by (subst replaceG_no_match) simp_all
  show ?thesis by (simp add: normalizeNewlines_def 1 2)
qed

lemma splitCh_no_sep: \<open>c \<notin> set l \<Longrightarrow> splitCh c l = [l]\<close>
  by (induction l) auto

lemma splitCh_append: \<open>c \<notin> set l \<Longrightarrow> splitCh c (l @ c # s) = l # splitCh c s\<close>
  by (induction l) auto

lemma splitCh_joinWith:
  assumes \<open>ls \<noteq> []\<close> \<open>\<forall>l \<in> set ls. c \<notin> set l\<close>
  shows \<open>splitCh c (joinWith [c] ls) = ls\<close>
  using assms
  by (induction \<open>[c]\<close> ls rule: joinWith.induct) (simp_all add: splitCh_no_sep splitCh_append)

lemma set_joinWith: \<open>set (joinWith sep ls) \<subseteq> set sep \<union> \<Union> (set ` set ls)\<close>
  by (induction sep ls rule: joinWith.induct) auto

lemma linesOf_joinWith:
  assumes \<open>ls \<noteq> []\<close> \<open>\<forall>l \<in> set ls. list_all (\<lambda>c. \<not> isLineTerm c) l\<close>
  shows \<open>linesOf (joinWith nl ls) = ls\<close>
proof -
  have \<open>CHR 0x0D \<notin> set l\<close> \<open>CHR 0x0A \<notin> set l\<close> if \<open>l \<in> set ls\<close> for l
    using assms(2) that by (auto simp: list_all_iff isLineTerm_def)
  then have cr: \<open>CHR 0x0D \<notin> set (joinWith nl ls)\<close> and lf: \<open>\<forall>l \<in> set ls. CHR 0x0A \<notin> set l\<close>
    using set_joinWith [of nl ls] by (auto simp: nl_def)
  show ?thesis
    unfolding linesOf_def normalizeNewlines_id [OF cr]
    using splitCh_joinWith [OF assms(1) lf] by (simp add: nl_def)
qed

lemma hd_joinWith: \<open>ls \<noteq> [] \<Longrightarrow> hd ls \<noteq> [] \<Longrightarrow> hd (joinWith sep ls) = hd (hd ls)\<close>
  by (induction sep ls rule: joinWith.induct) auto

lemma joinWith_nonempty: \<open>ls \<noteq> [] \<Longrightarrow> last ls \<noteq> [] \<Longrightarrow> joinWith sep ls \<noteq> []\<close>
  by (induction sep ls rule: joinWith.induct) auto

lemma last_joinWith: \<open>ls \<noteq> [] \<Longrightarrow> last ls \<noteq> [] \<Longrightarrow> last (joinWith sep ls) = last (last ls)\<close>
proof (induction sep ls rule: joinWith.induct)
  case (3 sep x y ys)
  then have \<open>joinWith sep (y # ys) \<noteq> []\<close> by (intro joinWith_nonempty) simp_all
  with 3 show ?case by simp
qed simp_all

text \<open>A document of nested directives: a line of plain text, or a directive with
  its fence, its name, the rest of its opening line and the documents of its
  body. \<open>docLines\<close> is the source text, line by line; \<open>rendered\<close> is the output
  expected from the directive engine: every directive is replaced by the output
  of \<^verbatim>\<open>generateDirectiveHtml\<close> for its name and its title, with the rendering of its
  own body, the whole of it and nothing else, as the body content.\<close>

datatype doc = Text string | Directive string string string \<open>doc list\<close>

primrec docLines :: \<open>doc \<Rightarrow> string list\<close> where
  \<open>docLines (Text l) = [l]\<close>
| \<open>docLines (Directive F name t ds) = openingLine F name t # concat (map docLines ds) @ [F]\<close>

primrec rendered :: \<open>doc \<Rightarrow> string\<close> where
  \<open>rendered (Text l) = l\<close>
| \<open>rendered (Directive F name t ds) =
     generateDirectiveHtml name (trim t) [] (joinWith nl (map rendered ds))\<close>

fun wellFormed :: \<open>doc \<Rightarrow> bool\<close> where
  \<open>wellFormed (Text l) \<longleftrightarrow> plainText l\<close>
| \<open>wellFormed (Directive F name t ds) \<longleftrightarrow>
     isFence F \<and> validName name \<and> validTitle t \<and> (\<forall>d \<in> set ds. wellFormed d)\<close>

text \<open>A block of lines that survives \<^verbatim>\<open>contentLines.join('\n').trim()\<close> and the
  split into lines unchanged, and whose first line is neither an option nor
  blank.\<close>

definition tidy :: \<open>string list \<Rightarrow> bool\<close> where
  \<open>tidy ls \<longleftrightarrow>
     ls \<noteq> [] \<and> \<not> isOptionLine (hd ls) \<and> \<not> isBlankLine (hd ls)
     \<and> hd ls \<noteq> [] \<and> \<not> isSpace (hd (hd ls)) \<and> last ls \<noteq> [] \<and> \<not> isSpace (last (last ls))
     \<and> (\<forall>l \<in> set ls. list_all (\<lambda>c. \<not> isLineTerm c) l)\<close>

lemma isNameCh_not_term: \<open>isNameCh c \<Longrightarrow> \<not> isLineTerm c\<close>
  by (auto simp: isNameCh_def isWordCh_def isDigit_def isUpper_def isLower_def isLineTerm_def)

lemma isLineTerm_fence: \<open>\<not> isLineTerm CHR '':''\<close> \<open>\<not> isLineTerm btick\<close>
  by (simp_all add: isLineTerm_def btick_def)

lemma fence_chars:
  assumes \<open>isFence F\<close>
  shows \<open>F \<noteq> []\<close> \<open>\<not> isSpace (hd F)\<close> \<open>\<not> isSpace (last F)\<close> \<open>list_all (\<lambda>c. \<not> isLineTerm c) F\<close>
  using assms by (auto elim!: fence_cases simp: isLineTerm_fence)

lemma openingLine_chars:
  assumes \<open>isFence F\<close> \<open>validName name\<close> \<open>validTitle t\<close>
  shows \<open>openingLine F name t \<noteq> []\<close> \<open>\<not> isSpace (hd (openingLine F name t))\<close>
    \<open>list_all (\<lambda>c. \<not> isLineTerm c) (openingLine F name t)\<close>
proof -
  show \<open>openingLine F name t \<noteq> []\<close> by (simp add: openingLine_def)
  show \<open>\<not> isSpace (hd (openingLine F name t))\<close>
    using fence_chars(1,2) [OF assms(1)] by (simp add: openingLine_def)
  have \<open>list_all (\<lambda>c. \<not> isLineTerm c) name\<close>
    using assms(2) isNameCh_not_term unfolding validName_def list_all_iff by blast
  moreover have \<open>\<not> isLineTerm CHR ''{''\<close> \<open>\<not> isLineTerm CHR ''}''\<close>
    by (simp_all add: isLineTerm_def)
  ultimately show \<open>list_all (\<lambda>c. \<not> isLineTerm c) (openingLine F name t)\<close>
    using fence_chars(4) [OF assms(1)] assms(3) by (simp add: openingLine_def validTitle_def)
qed

lemma tidy_concat:
  assumes \<open>lss \<noteq> []\<close> \<open>\<forall>ls \<in> set lss. tidy ls\<close>
  shows \<open>tidy (concat lss)\<close>
proof -
  obtain a as where a: \<open>lss = a # as\<close> using assms(1) by (cases lss) auto
  then have \<open>a \<noteq> []\<close> using assms(2) by (simp add: tidy_def)
  then have h: \<open>hd (concat lss) = hd a\<close> by (simp add: a)
  obtain bs z where z: \<open>lss = bs @ [z]\<close> using assms(1) by (cases lss rule: rev_cases) auto
  then have \<open>z \<noteq> []\<close> using assms(2) by (simp add: tidy_def)
  then have l: \<open>last (concat lss) = last z\<close> by (simp add: z)
  have \<open>a \<in> set lss\<close> by (simp add: a)
  moreover have \<open>z \<in> set lss\<close> by (simp add: z)
  ultimately have \<open>tidy a\<close> \<open>tidy z\<close> using assms(2) by blast+
  moreover have \<open>\<forall>l \<in> set (concat lss). list_all (\<lambda>c. \<not> isLineTerm c) l\<close>
    using assms(2) by (auto simp: tidy_def)
  moreover have \<open>concat lss \<noteq> []\<close> using \<open>a \<noteq> []\<close> by (simp add: a)
  ultimately show ?thesis
    using h l unfolding tidy_def by simp
qed

lemma tidy_docLines: \<open>wellFormed d \<Longrightarrow> tidy (docLines d)\<close>
proof (induction d)
  case (Text l)
  then show ?case
    using content_plain [of l] by (simp add: tidy_def plainText_def)
next
  case (Directive F name t ds)
  then have wf: \<open>isFence F\<close> \<open>validName name\<close> \<open>validTitle t\<close> by simp_all
  have \<open>\<forall>l \<in> set (concat (map docLines ds)). list_all (\<lambda>c. \<not> isLineTerm c) l\<close>
    using Directive by (auto simp: tidy_def)
  then show ?case
    using content_opening [OF wf(1), of name t] openingLine_chars [OF wf] fence_chars [OF wf(1)]
    by (simp add: tidy_def)
qed

lemma tidy_body:
  assumes \<open>\<forall>d \<in> set ds. wellFormed d\<close> \<open>ds \<noteq> []\<close>
  shows \<open>tidy (concat (map docLines ds))\<close>
  using assms by (intro tidy_concat) (simp_all add: tidy_docLines)

text \<open>The scan for the closing fence passes over a well-formed document and
  leaves the depth as it found it.\<close>

lemma findEnd_concat:
  assumes \<open>\<And>ls k rest. ls \<in> set lss \<Longrightarrow> 1 \<le> k \<Longrightarrow>
             findEnd F k (ls @ rest) = map_option (\<lambda>i. length ls + i) (findEnd F k rest)\<close>
    and \<open>1 \<le> depth\<close>
  shows \<open>findEnd F depth (concat lss @ rest)
         = map_option (\<lambda>i. length (concat lss) + i) (findEnd F depth rest)\<close>
  using assms(1)
proof (induction lss)
  case Nil
  then show ?case by (simp add: option.map_ident)
next
  case (Cons ls lss)
  have \<open>findEnd F depth (concat (ls # lss) @ rest) = findEnd F depth (ls @ (concat lss @ rest))\<close>
    by simp
  also have \<open>\<dots> = map_option (\<lambda>i. length ls + i) (findEnd F depth (concat lss @ rest))\<close>
    using assms(2) by (intro Cons.prems) simp_all
  also have \<open>findEnd F depth (concat lss @ rest)
               = map_option (\<lambda>i. length (concat lss) + i) (findEnd F depth rest)\<close>
    by (rule Cons.IH) (simp add: Cons.prems)
  finally show ?case
    by (simp add: option.map_comp comp_def add.assoc)
qed

lemma findEnd_docLines:
  assumes \<open>isFence F\<close>
  shows \<open>wellFormed d \<Longrightarrow> 1 \<le> depth \<Longrightarrow>
           findEnd F depth (docLines d @ rest)
           = map_option (\<lambda>i. length (docLines d) + i) (findEnd F depth rest)\<close>
proof (induction d arbitrary: depth rest)
  case (Text l)
  then show ?case
    using assms by (simp add: opening_plain closing_plain option.map_comp comp_def)
next
  case (Directive G name t ds)
  then have wf: \<open>isFence G\<close> \<open>validName name\<close> \<open>validTitle t\<close> \<open>\<forall>d \<in> set ds. wellFormed d\<close>
    by simp_all
  let ?kids = \<open>concat (map docLines ds)\<close>
  have kids: \<open>findEnd F k (?kids @ tl) = map_option (\<lambda>i. length ?kids + i) (findEnd F k tl)\<close>
    if \<open>1 \<le> k\<close> for k tl
  proof (rule findEnd_concat [OF _ that])
    fix ls k' rest'
    assume \<open>ls \<in> set (map docLines ds)\<close> \<open>(1::int) \<le> k'\<close>
    then obtain d where \<open>d \<in> set ds\<close> \<open>ls = docLines d\<close> by auto
    then show \<open>findEnd F k' (ls @ rest') = map_option (\<lambda>i. length ls + i) (findEnd F k' rest')\<close>
      using Directive.IH [of d k' rest'] wf(4) \<open>1 \<le> k'\<close> by simp
  qed
  have oo: \<open>reTest (openingPattern F) (openingLine G name t) \<longleftrightarrow> G = F\<close>
    using assms wf(1,2) by (rule opening_opening)
  have co: \<open>\<not> reTest (closingPattern F) (openingLine G name t)\<close>
    using assms wf(1) by (rule closing_opening)
  have op: \<open>\<not> reTest (openingPattern F) G\<close>
    using assms wf(1) by (rule opening_fence)
  have cl: \<open>reTest (closingPattern F) G \<longleftrightarrow> G = F\<close>
    using assms wf(1) by (rule closing_fence)
  have len: \<open>length (docLines (Directive G name t ds)) = Suc (Suc (length ?kids))\<close>
    by simp
  have lines: \<open>docLines (Directive G name t ds) @ rest = openingLine G name t # (?kids @ G # rest)\<close>
    by simp
  show ?case
  proof (cases \<open>G = F\<close>)
    case True
    have s1: \<open>findEnd F depth (openingLine G name t # (?kids @ G # rest))
            = map_option Suc (findEnd F (depth + 1) (?kids @ G # rest))\<close>
      using oo True by simp
    have s2: \<open>findEnd F (depth + 1) (?kids @ G # rest)
            = map_option (\<lambda>i. length ?kids + i) (findEnd F (depth + 1) (G # rest))\<close>
      using Directive.prems(2) by (intro kids) simp
    have s3: \<open>findEnd F (depth + 1) (G # rest) = map_option Suc (findEnd F depth rest)\<close>
      using op cl True Directive.prems(2) by simp
    show ?thesis
      unfolding lines len s1 s2 s3 by (simp add: option.map_comp comp_def)
  next
    case False
    have s1: \<open>findEnd F depth (openingLine G name t # (?kids @ G # rest))
            = map_option Suc (findEnd F depth (?kids @ G # rest))\<close>
      using oo co False by simp
    have s2: \<open>findEnd F depth (?kids @ G # rest)
            = map_option (\<lambda>i. length ?kids + i) (findEnd F depth (G # rest))\<close>
      using Directive.prems(2) by (intro kids)
    have s3: \<open>findEnd F depth (G # rest) = map_option Suc (findEnd F depth rest)\<close>
      using op cl False by simp
    show ?thesis
      unfolding lines len s1 s2 s3 by (simp add: option.map_comp comp_def)
  qed
qed

lemma findEnd_body:
  assumes \<open>isFence F\<close> \<open>\<forall>d \<in> set ds. wellFormed d\<close>
  shows \<open>findEnd F 1 (concat (map docLines ds) @ F # rest) = Some (length (concat (map docLines ds)))\<close>
proof -
  let ?kids = \<open>concat (map docLines ds)\<close>
  have \<open>findEnd F 1 (?kids @ F # rest) = map_option (\<lambda>i. length ?kids + i) (findEnd F 1 (F # rest))\<close>
  proof (rule findEnd_concat)
    fix ls k rest'
    assume \<open>ls \<in> set (map docLines ds)\<close> \<open>(1::int) \<le> k\<close>
    then obtain d where \<open>d \<in> set ds\<close> \<open>ls = docLines d\<close> by auto
    then show \<open>findEnd F k (ls @ rest') = map_option (\<lambda>i. length ls + i) (findEnd F k rest')\<close>
      using findEnd_docLines [OF assms(1), of d k rest'] assms(2) \<open>1 \<le> k\<close> by simp
  qed simp
  also have \<open>findEnd F 1 (F # rest) = Some 0\<close>
    using assms(1) by (simp add: opening_fence closing_fence)
  finally show ?thesis by simp
qed

text \<open>The main loop on the lines of well-formed documents.\<close>

lemma directiveMatch_Nil: \<open>directiveMatch [] = None\<close>
  by (simp add: directiveMatch_def reDirective_other)

lemma pmdLines_empty_line: \<open>pmdLines [[]] = [[]]\<close>
  by (simp add: directiveMatch_Nil)

lemma pmdLines_concat:
  assumes \<open>\<And>d rest. d \<in> set ds \<Longrightarrow> pmdLines (docLines d @ rest) = rendered d # pmdLines rest\<close>
  shows \<open>pmdLines (concat (map docLines ds) @ rest) = map rendered ds @ pmdLines rest\<close>
  using assms by (induction ds) simp_all

lemma trim_title: \<open>trim (dropWhile isSpace t) = trim t\<close>
  by (simp add: trim_def)

lemma pmdLines_docLines:
  \<open>wellFormed d \<Longrightarrow> pmdLines (docLines d @ rest) = rendered d # pmdLines rest\<close>
proof (induction d arbitrary: rest)
  case (Text l)
  then show ?case by (simp add: directiveMatch_plain)
next
  case (Directive F name t ds)
  then have wf: \<open>isFence F\<close> \<open>validName name\<close> \<open>validTitle t\<close> \<open>\<forall>d \<in> set ds. wellFormed d\<close>
    by simp_all
  let ?kids = \<open>concat (map docLines ds)\<close>
  let ?after = \<open>?kids @ F # rest\<close>
  have m: \<open>directiveMatch (openingLine F name t) = Some (F, name, dropWhile isSpace t)\<close>
    using wf(1-3) by (rule directiveMatch_opening)
  have e: \<open>findEnd F 1 ?after = Some (length ?kids)\<close>
    using wf(1,4) by (rule findEnd_body)
  have kids: \<open>pmdLines (?kids @ tl) = map rendered ds @ pmdLines tl\<close> for tl
    by (rule pmdLines_concat) (use Directive.IH wf(4) in simp)
  have body: \<open>optionLines (splitBody ?kids) = []\<close>
    \<open>joinWith nl (pmdLines (linesOf (trim (joinWith nl (contentLines (splitBody ?kids))))))
       = joinWith nl (map rendered ds)\<close>
  proof -
    show \<open>optionLines (splitBody ?kids) = []\<close>
      using tidy_body [OF wf(4)] by (cases \<open>ds = []\<close>) (simp_all add: splitBody_content tidy_def)
    show \<open>joinWith nl (pmdLines (linesOf (trim (joinWith nl (contentLines (splitBody ?kids))))))
       = joinWith nl (map rendered ds)\<close>
    proof (cases \<open>ds = []\<close>)
      case True
      have \<open>contentLines (splitBody []) = []\<close> by (rule splitBody_content) simp
      then show ?thesis
        using True by (simp add: trim_def linesOf_def normalizeNewlines_id pmdLines_empty_line del: pmdLines.simps)
    next
      case False
      have t: \<open>tidy ?kids\<close> using wf(4) False by (rule tidy_body)
      then have c: \<open>contentLines (splitBody ?kids) = ?kids\<close>
        by (intro splitBody_content) (simp add: tidy_def)
      have \<open>joinWith nl ?kids \<noteq> []\<close>
        \<open>hd (joinWith nl ?kids) = hd (hd ?kids)\<close> \<open>last (joinWith nl ?kids) = last (last ?kids)\<close>
        using t by (simp_all add: tidy_def joinWith_nonempty hd_joinWith last_joinWith)
      then have \<open>trim (joinWith nl ?kids) = joinWith nl ?kids\<close>
        using t by (intro trim_id) (simp_all add: tidy_def)
      moreover have \<open>linesOf (joinWith nl ?kids) = ?kids\<close>
        using t by (intro linesOf_joinWith) (simp_all add: tidy_def)
      ultimately show ?thesis
        using c kids [of \<open>[]\<close>] by simp
    qed
  qed
  have \<open>pmdLines (docLines (Directive F name t ds) @ rest)
          = pmdLines (openingLine F name t # ?after)\<close>
    by simp
  also have \<open>\<dots> = generateDirectiveHtml name (trim (dropWhile isSpace t))
                      (optionLines (splitBody (take (length ?kids) ?after)))
                      (joinWith nl (pmdLines (linesOf (trim (joinWith nl
                         (contentLines (splitBody (take (length ?kids) ?after))))))))
                    # pmdLines (drop (Suc (length ?kids)) ?after)\<close>
    by (subst pmdLines.simps(2)) (simp add: m e del: pmdLines.simps)
  also have \<open>\<dots> = rendered (Directive F name t ds) # pmdLines rest\<close>
    by (simp add: body trim_title del: pmdLines.simps)
  finally show ?case .
qed

lemma parse_documents:
  assumes \<open>\<forall>d \<in> set ds. wellFormed d\<close>
  shows \<open>parseMystDirectives (joinWith nl (concat (map docLines ds))) = joinWith nl (map rendered ds)\<close>
proof (cases \<open>ds = []\<close>)
  case True
  then show ?thesis
    by (simp add: parseMystDirectives_def linesOf_def normalizeNewlines_id pmdLines_empty_line del: pmdLines.simps)
next
  case False
  let ?kids = \<open>concat (map docLines ds)\<close>
  have \<open>tidy ?kids\<close> using assms False by (rule tidy_body)
  then have \<open>linesOf (joinWith nl ?kids) = ?kids\<close>
    by (intro linesOf_joinWith) (simp_all add: tidy_def)
  moreover have \<open>pmdLines (?kids @ []) = map rendered ds @ pmdLines []\<close>
    by (rule pmdLines_concat) (use assms in \<open>simp add: pmdLines_docLines\<close>)
  ultimately show ?thesis
    by (simp add: parseMystDirectives_def)
qed

lemma docLines_Text: \<open>concat (map (docLines \<circ> Text) ls) = ls\<close>
  by (induction ls) simp_all

lemma rendered_Text: \<open>map (rendered \<circ> Text) ls = ls\<close>
  by (induction ls) simp_all

text \<open>
  Claim C3. A directive block that contains a nested directive of the same name is
  closed at its own closing fence, at two and at three levels of nesting. The
  fences \<open>F1\<close>, \<open>F2\<close>, \<open>F3\<close> of the levels are any of \<^verbatim>\<open>:::\<close>, \<^verbatim>\<open>::::\<close> and the two
  backtick fences, so that they may be of the same family and of the same
  length, which is the case where only the count of the nesting depth tells the
  closing fences apart. The lines \<open>pre\<close>, \<open>a1\<close>, \<open>a2\<close>, \<open>c\<close>, \<open>b2\<close>, \<open>b1\<close>, \<open>post\<close> are lines of
  plain text before, inside and after the blocks. The output is the text before
  the outer block, the output of \<^verbatim>\<open>generateDirectiveHtml\<close> for the outer block, and
  the text after it; the body content given to \<^verbatim>\<open>generateDirectiveHtml\<close> for the
  outer block is the text before the inner block, the output for the inner
  block and the text after the inner block, none of it lost; the body content
  given for the innermost block is its own text \<open>c\<close>.
\<close>

theorem C3_nested_directive_closes_at_matching_fence:
  assumes \<open>isFence F1\<close> \<open>isFence F2\<close> \<open>isFence F3\<close>
    and \<open>validName name\<close> \<open>validTitle t1\<close> \<open>validTitle t2\<close> \<open>validTitle t3\<close>
    and \<open>list_all plainText (pre @ a1 @ a2 @ c @ b2 @ b1 @ post)\<close>
  shows \<open>parseMystDirectives (joinWith nl
            (pre @ [openingLine F1 name t1] @ a1
                 @ [openingLine F2 name t2] @ c @ [F2]
                 @ b1 @ [F1] @ post))
         = joinWith nl
            (pre @ [generateDirectiveHtml name (trim t1) []
                      (joinWith nl
                         (a1 @ [generateDirectiveHtml name (trim t2) [] (joinWith nl c)] @ b1))]
                 @ post)
       \<and> parseMystDirectives (joinWith nl
            (pre @ [openingLine F1 name t1] @ a1
                 @ [openingLine F2 name t2] @ a2
                 @ [openingLine F3 name t3] @ c @ [F3]
                 @ b2 @ [F2]
                 @ b1 @ [F1] @ post))
         = joinWith nl
            (pre @ [generateDirectiveHtml name (trim t1) []
                      (joinWith nl
                         (a1 @ [generateDirectiveHtml name (trim t2) []
                                  (joinWith nl
                                     (a2 @ [generateDirectiveHtml name (trim t3) [] (joinWith nl c)] @ b2))]
                             @ b1))]
                 @ post)\<close>
proof -
  have plain: \<open>list_all plainText pre\<close> \<open>list_all plainText a1\<close> \<open>list_all plainText a2\<close>
    \<open>list_all plainText c\<close> \<open>list_all plainText b2\<close> \<open>list_all plainText b1\<close> \<open>list_all plainText post\<close>
    using assms(8) by simp_all
  let ?two = \<open>map Text pre
      @ [Directive F1 name t1 (map Text a1 @ [Directive F2 name t2 (map Text c)] @ map Text b1)]
      @ map Text post\<close>
  let ?three = \<open>map Text pre
      @ [Directive F1 name t1
           (map Text a1
            @ [Directive F2 name t2 (map Text a2 @ [Directive F3 name t3 (map Text c)] @ map Text b2)]
            @ map Text b1)]
      @ map Text post\<close>
  have \<open>\<forall>d \<in> set ?two. wellFormed d\<close>
    using assms(1-7) plain by (auto simp: list_all_iff)
  then have two: \<open>parseMystDirectives (joinWith nl (concat (map docLines ?two)))
                  = joinWith nl (map rendered ?two)\<close>
    by (rule parse_documents)
  have \<open>\<forall>d \<in> set ?three. wellFormed d\<close>
    using assms(1-7) plain by (auto simp: list_all_iff)
  then have three: \<open>parseMystDirectives (joinWith nl (concat (map docLines ?three)))
                  = joinWith nl (map rendered ?three)\<close>
    by (rule parse_documents)
  show ?thesis
    using two three by (simp add: docLines_Text rendered_Text)
qed

theorem C3_witness:
  \<open>parseMystDirectives (''Intro\<newline>:::{note} Outer\<newline>before\<newline>:::{note} Inner\<newline>deep\<newline>:::\<newline>after\<newline>:::\<newline>Outro'')
     = ''Intro\<newline><div class="admonition note"><div class="admonition-title">Outer</div>\<newline>\<newline>before\<newline><div class="admonition note"><div class="admonition-title">Inner</div>\<newline>\<newline>deep\<newline>\<newline></div>\<newline>after\<newline>\<newline></div>\<newline>Outro''
   \<and> parseMystDirectives (''Intro\<newline>:::{note} Outer\<newline>before\<newline>:::{note} Inner\<newline>mid1\<newline>:::{note} Innermost\<newline>deep\<newline>:::\<newline>mid2\<newline>:::\<newline>after\<newline>:::\<newline>Outro'')
     = ''Intro\<newline><div class="admonition note"><div class="admonition-title">Outer</div>\<newline>\<newline>before\<newline><div class="admonition note"><div class="admonition-title">Inner</div>\<newline>\<newline>mid1\<newline><div class="admonition note"><div class="admonition-title">Innermost</div>\<newline>\<newline>deep\<newline>\<newline></div>\<newline>mid2\<newline>\<newline></div>\<newline>after\<newline>\<newline></div>\<newline>Outro''\<close>
proof -
  let ?F = \<open>'':::''\<close>
  let ?in2 = \<open>joinWith nl
            ([''Intro''] @ [openingLine ?F ''note'' '' Outer''] @ [''before'']
                 @ [openingLine ?F ''note'' '' Inner''] @ [''deep''] @ [?F]
                 @ [''after''] @ [?F] @ [''Outro''])\<close>
  let ?out2 = \<open>joinWith nl
            ([''Intro''] @ [generateDirectiveHtml ''note'' (trim '' Outer'') []
                      (joinWith nl
                         ([''before''] @ [generateDirectiveHtml ''note'' (trim '' Inner'') [] (joinWith nl [''deep''])] @ [''after'']))]
                 @ [''Outro''])\<close>
  let ?in3 = \<open>joinWith nl
            ([''Intro''] @ [openingLine ?F ''note'' '' Outer''] @ [''before'']
                 @ [openingLine ?F ''note'' '' Inner''] @ [''mid1'']
                 @ [openingLine ?F ''note'' '' Innermost''] @ [''deep''] @ [?F]
                 @ [''mid2''] @ [?F]
                 @ [''after''] @ [?F] @ [''Outro''])\<close>
  let ?out3 = \<open>joinWith nl
            ([''Intro''] @ [generateDirectiveHtml ''note'' (trim '' Outer'') []
                      (joinWith nl
                         ([''before''] @ [generateDirectiveHtml ''note'' (trim '' Inner'') []
                                  (joinWith nl
                                     ([''mid1''] @ [generateDirectiveHtml ''note'' (trim '' Innermost'') [] (joinWith nl [''deep''])] @ [''mid2'']))]
                             @ [''after'']))]
                 @ [''Outro''])\<close>
  have f: \<open>isFence ?F\<close> by code_simp
  have n: \<open>validName ''note''\<close> by code_simp
  have t1: \<open>validTitle '' Outer''\<close> by code_simp
  have t2: \<open>validTitle '' Inner''\<close> by code_simp
  have t3: \<open>validTitle '' Innermost''\<close> by code_simp
  have p: \<open>list_all plainText ([''Intro''] @ [''before''] @ [''mid1''] @ [''deep''] @ [''mid2''] @ [''after''] @ [''Outro''])\<close>
    by code_simp
  have e: \<open>parseMystDirectives ?in2 = ?out2 \<and> parseMystDirectives ?in3 = ?out3\<close>
    by (rule C3_nested_directive_closes_at_matching_fence [OF f f f n t1 t2 t3 p])
  have i2: \<open>?in2 = ''Intro\<newline>:::{note} Outer\<newline>before\<newline>:::{note} Inner\<newline>deep\<newline>:::\<newline>after\<newline>:::\<newline>Outro''\<close>
    by code_simp
  have i3: \<open>?in3 = ''Intro\<newline>:::{note} Outer\<newline>before\<newline>:::{note} Inner\<newline>mid1\<newline>:::{note} Innermost\<newline>deep\<newline>:::\<newline>mid2\<newline>:::\<newline>after\<newline>:::\<newline>Outro''\<close>
    by code_simp
  have o2: \<open>?out2 = ''Intro\<newline><div class="admonition note"><div class="admonition-title">Outer</div>\<newline>\<newline>before\<newline><div class="admonition note"><div class="admonition-title">Inner</div>\<newline>\<newline>deep\<newline>\<newline></div>\<newline>after\<newline>\<newline></div>\<newline>Outro''\<close>
    by code_simp
  have o3: \<open>?out3 = ''Intro\<newline><div class="admonition note"><div class="admonition-title">Outer</div>\<newline>\<newline>before\<newline><div class="admonition note"><div class="admonition-title">Inner</div>\<newline>\<newline>mid1\<newline><div class="admonition note"><div class="admonition-title">Innermost</div>\<newline>\<newline>deep\<newline>\<newline></div>\<newline>mid2\<newline>\<newline></div>\<newline>after\<newline>\<newline></div>\<newline>Outro''\<close>
    by code_simp
  show ?thesis
    using e unfolding i2 i3 o2 o3 .
qed

section \<open>Documents as blocks of lines\<close>

text \<open>
  A global replacement on a document that is a sequence of blocks, each on lines
  of its own (the blocks are joined by line feeds). Every block is either a
  match of the pattern, whole, or holds no match at all; then the replacement
  acts block by block, from the first block to the last, with the state handed
  on in that order.
\<close>

fun mapAcc :: \<open>('a \<Rightarrow> 's \<Rightarrow> 'b \<times> 's) \<Rightarrow> 'a list \<Rightarrow> 's \<Rightarrow> 'b list \<times> 's\<close> where
  \<open>mapAcc f [] st = ([], st)\<close>
| \<open>mapAcc f (x # xs) st =
     (case f x st of (y, st1) \<Rightarrow> (case mapAcc f xs st1 of (ys, st2) \<Rightarrow> (y # ys, st2)))\<close>

definition lineStart :: \<open>string \<Rightarrow> bool\<close> where
  \<open>lineStart b \<longleftrightarrow> b = [] \<or> hd b = CHR 0x0A\<close>

definition blocksTail :: \<open>string list \<Rightarrow> string\<close> where
  \<open>blocksTail ts = (if ts = [] then [] else CHR 0x0A # joinWith nl ts)\<close>

text \<open>A block \<open>t\<close> with the text \<open>b\<close> before it (reversed) and the text \<open>tail\<close> after it:
  with captures \<open>c\<close> it is a match that ends where the block ends; without, no
  match starts in it. Nothing matches at the line feed after it.\<close>

definition blockOk :: \<open>re \<Rightarrow> string \<Rightarrow> string \<Rightarrow> caps option \<Rightarrow> string \<Rightarrow> bool\<close> where
  \<open>blockOk r b t x tail \<longleftrightarrow>
     reMatchAt r (rev t @ b) tail = None
     \<and> (case x of
          None \<Rightarrow> (\<forall>i < length t. reMatchAt r (rev (take i t) @ b) (drop i t @ tail) = None)
        | Some c \<Rightarrow> t \<noteq> [] \<and> reMatchAt r b (t @ tail) = Some (length t, c))\<close>

definition blockStep :: \<open>(string \<Rightarrow> caps \<Rightarrow> 's \<Rightarrow> string \<times> 's) \<Rightarrow> string \<times> caps option \<Rightarrow> 's \<Rightarrow> string \<times> 's\<close> where
  \<open>blockStep f tx st = (case snd tx of None \<Rightarrow> (fst tx, st) | Some c \<Rightarrow> f (fst tx) c st)\<close>

lemma joinWith_Cons: \<open>joinWith nl (t # ts) = t @ blocksTail ts\<close>
  by (cases ts) (simp_all add: blocksTail_def nl_def)

lemma blocksTail_Cons: \<open>blocksTail (t # ts) = CHR 0x0A # t @ blocksTail ts\<close>
  by (simp add: blocksTail_def joinWith_Cons)

lemma replaceG_copy:
  assumes \<open>\<forall>i < length xs. reMatchAt r (rev (take i xs) @ b) (drop i xs @ ys) = None\<close>
  shows \<open>replaceG r cb b 0 (xs @ ys) st =
           (case replaceG r cb (rev xs @ b) 0 ys st of (out, st') \<Rightarrow> (xs @ out, st'))\<close>
  using assms
proof (induction xs arbitrary: b)
  case Nil
  then show ?case by simp
next
  case (Cons x xs)
  from Cons.prems have h0: \<open>reMatchAt r b (x # xs @ ys) = None\<close> by force
  have \<open>\<forall>i < length xs. reMatchAt r (rev (take i xs) @ x # b) (drop i xs @ ys) = None\<close>
  proof (intro allI impI)
    fix i assume \<open>i < length xs\<close>
    then have \<open>Suc i < length (x # xs)\<close> by simp
    from Cons.prems [rule_format, OF this]
    show \<open>reMatchAt r (rev (take i xs) @ x # b) (drop i xs @ ys) = None\<close> by simp
  qed
  from Cons.IH [OF this] h0 show ?case
    by (simp split: prod.splits)
qed

lemma replaceG_match:
  assumes \<open>m \<noteq> []\<close> \<open>reMatchAt r b (m @ ys) = Some (length m, c)\<close>
  shows \<open>replaceG r cb b 0 (m @ ys) st =
           (case cb b m ys c st of (rep, st1) \<Rightarrow>
              (case replaceG r cb (rev m @ b) 0 ys st1 of (out, st2) \<Rightarrow> (rep @ out, st2)))\<close>
proof -
  obtain x xs where m: \<open>m = x # xs\<close> using assms(1) by (cases m) auto
  have \<open>replaceG r cb (x # b) (length xs) (xs @ ys) st1 = replaceG r cb (rev xs @ x # b) 0 ys st1\<close> for st1
    by (rule replaceG_skip)
  then show ?thesis
    using assms(2) by (simp add: m split: prod.splits)
qed

lemma replaceG_line_feed:
  assumes \<open>reMatchAt r b (CHR 0x0A # s) = None\<close>
  shows \<open>replaceG r cb b 0 (CHR 0x0A # s) st =
           (case replaceG r cb (CHR 0x0A # b) 0 s st of (out, st') \<Rightarrow> (CHR 0x0A # out, st'))\<close>
  using assms by simp

lemma length_mapAcc: \<open>length (fst (mapAcc g xs s)) = length xs\<close>
proof (induction xs arbitrary: s)
  case Nil
  then show ?case by simp
next
  case (Cons x xs)
  obtain y s1 where g: \<open>g x s = (y, s1)\<close> by (cases \<open>g x s\<close>)
  obtain ys s2 where m: \<open>mapAcc g xs s1 = (ys, s2)\<close> by (cases \<open>mapAcc g xs s1\<close>)
  from Cons.IH [of s1] m have \<open>length ys = length xs\<close> by simp
  with g m show ?case by simp
qed

lemma replaceG_blocks:
  assumes \<open>blks \<noteq> []\<close>
    and \<open>\<And>as t x cs b. blks = as @ (t, x) # cs \<Longrightarrow> lineStart b \<Longrightarrow> blockOk r b t x (blocksTail (map fst cs))\<close>
    and \<open>lineStart b\<close>
  shows \<open>replaceG r (\<lambda>b m a. f m) b 0 (joinWith nl (map fst blks)) st =
           (case mapAcc (blockStep f) blks st of (out, st') \<Rightarrow> (joinWith nl out, st'))\<close>
  using assms
proof (induction blks arbitrary: b st rule: list_nonempty_induct)
  case (single tx)
  obtain t x where tx: \<open>tx = (t, x)\<close> by (cases tx)
  have ok: \<open>blockOk r b t x []\<close>
    using single(1) [of \<open>[]\<close> t x \<open>[]\<close> b] single(2) by (simp add: tx blocksTail_def)
  then have e: \<open>reMatchAt r (rev t @ b) [] = None\<close> by (simp add: blockOk_def)
  show ?case
  proof (cases x)
    case None
    with ok have \<open>\<forall>i < length t. reMatchAt r (rev (take i t) @ b) (drop i t @ []) = None\<close>
      by (simp add: blockOk_def)
    from replaceG_copy [OF this, of \<open>\<lambda>b m a. f m\<close> st] e show ?thesis
      by (simp add: tx None blockStep_def)
  next
    case (Some c)
    with ok have \<open>t \<noteq> []\<close> \<open>reMatchAt r b (t @ []) = Some (length t, c)\<close>
      by (simp_all add: blockOk_def)
    from replaceG_match [OF this, of \<open>\<lambda>b m a. f m\<close> st] e show ?thesis
      by (simp add: tx Some blockStep_def split: prod.splits)
  qed
next
  case (cons tx blks)
  obtain t x where tx: \<open>tx = (t, x)\<close> by (cases tx)
  let ?rest = \<open>joinWith nl (map fst blks)\<close>
  have tl1: \<open>blocksTail (map fst blks) = CHR 0x0A # ?rest\<close>
    using cons(1) by (simp add: blocksTail_def)
  have ok: \<open>blockOk r b t x (CHR 0x0A # ?rest)\<close>
    using cons(3) [of \<open>[]\<close> t x blks b] cons(4) by (simp add: tx tl1)
  then have e: \<open>reMatchAt r (rev t @ b) (CHR 0x0A # ?rest) = None\<close> by (simp add: blockOk_def)
  have ls: \<open>lineStart (CHR 0x0A # rev t @ b)\<close> by (simp add: lineStart_def)
  have IH: \<open>replaceG r (\<lambda>b m a. f m) (CHR 0x0A # rev t @ b) 0 ?rest st1 =
           (case mapAcc (blockStep f) blks st1 of (out, st') \<Rightarrow> (joinWith nl out, st'))\<close> for st1
  proof (rule cons(2) [OF _ ls])
    fix as t' x' cs b'
    assume \<open>blks = as @ (t', x') # cs\<close> \<open>lineStart b'\<close>
    then show \<open>blockOk r b' t' x' (blocksTail (map fst cs))\<close>
      using cons(3) [of \<open>tx # as\<close> t' x' cs b'] by simp
  qed
  have whole: \<open>joinWith nl (map fst (tx # blks)) = t @ CHR 0x0A # ?rest\<close>
    by (simp add: tx joinWith_Cons tl1)
  have out: \<open>joinWith nl (y # ys) = y @ CHR 0x0A # joinWith nl ys\<close> if \<open>length ys = length blks\<close> for y ys
    using that cons(1) by (cases ys) (simp_all add: nl_def)
  let ?cb = \<open>\<lambda>b m a. f m\<close>
  show ?case
  proof (cases x)
    case None
    with ok have c: \<open>\<forall>i < length t. reMatchAt r (rev (take i t) @ b) (drop i t @ CHR 0x0A # ?rest) = None\<close>
      by (simp add: blockOk_def)
    obtain outs st' where ma: \<open>mapAcc (blockStep f) blks st = (outs, st')\<close>
      by (cases \<open>mapAcc (blockStep f) blks st\<close>)
    have lo: \<open>length outs = length blks\<close> using length_mapAcc [of \<open>blockStep f\<close> blks st] ma by simp
    have r3: \<open>replaceG r ?cb (CHR 0x0A # rev t @ b) 0 ?rest st = (joinWith nl outs, st')\<close>
      using IH [of st] ma by simp
    have r2: \<open>replaceG r ?cb (rev t @ b) 0 (CHR 0x0A # ?rest) st = (CHR 0x0A # joinWith nl outs, st')\<close>
      using replaceG_line_feed [OF e, of ?cb st] r3 by simp
    have r1: \<open>replaceG r ?cb b 0 (t @ CHR 0x0A # ?rest) st = (t @ CHR 0x0A # joinWith nl outs, st')\<close>
      using replaceG_copy [OF c, of ?cb st] r2 by simp
    have step: \<open>mapAcc (blockStep f) (tx # blks) st = (t # outs, st')\<close>
      using ma by (simp add: tx None blockStep_def)
    show ?thesis
      unfolding whole step using r1 out [OF lo] by simp
  next
    case (Some c)
    with ok have m: \<open>t \<noteq> []\<close> \<open>reMatchAt r b (t @ CHR 0x0A # ?rest) = Some (length t, c)\<close>
      by (simp_all add: blockOk_def)
    obtain rep st1 where f: \<open>f t c st = (rep, st1)\<close> by (cases \<open>f t c st\<close>)
    obtain outs st' where ma: \<open>mapAcc (blockStep f) blks st1 = (outs, st')\<close>
      by (cases \<open>mapAcc (blockStep f) blks st1\<close>)
    have lo: \<open>length outs = length blks\<close> using length_mapAcc [of \<open>blockStep f\<close> blks st1] ma by simp
    have r3: \<open>replaceG r ?cb (CHR 0x0A # rev t @ b) 0 ?rest st1 = (joinWith nl outs, st')\<close>
      using IH [of st1] ma by simp
    have r2: \<open>replaceG r ?cb (rev t @ b) 0 (CHR 0x0A # ?rest) st1 = (CHR 0x0A # joinWith nl outs, st')\<close>
      using replaceG_line_feed [OF e, of ?cb st1] r3 by simp
    have r1: \<open>replaceG r ?cb b 0 (t @ CHR 0x0A # ?rest) st = (rep @ CHR 0x0A # joinWith nl outs, st')\<close>
      using replaceG_match [OF m, of ?cb st] r2 f by simp
    have step: \<open>mapAcc (blockStep f) (tx # blks) st = (rep # outs, st')\<close>
      using ma f by (simp add: tx Some blockStep_def)
    show ?thesis
      unfolding whole step using r1 out [OF lo] by simp
  qed
qed

text \<open>A pattern that begins with the literal text \<open>L\<close> matches nowhere in a block in
  which \<open>L\<close> does not occur.\<close>

fun clearOf :: \<open>string \<Rightarrow> string \<Rightarrow> bool\<close> where
  \<open>clearOf L [] = True\<close>
| \<open>clearOf L (x # xs) \<longleftrightarrow> \<not> prefix L (x # xs) \<and> clearOf L xs\<close>

lemma clearOf_drop: \<open>clearOf L t \<Longrightarrow> i < length t \<Longrightarrow> \<not> prefix L (drop i t)\<close>
proof (induction t arbitrary: i)
  case Nil
  then show ?case by simp
next
  case (Cons x xs)
  then show ?case by (cases i) auto
qed

lemma clearOf_first: \<open>L \<noteq> [] \<Longrightarrow> hd L \<notin> set t \<Longrightarrow> clearOf L t\<close>
  by (induction t) (auto simp: prefix_def neq_Nil_conv)

lemma clearOf_append_skip: \<open>L \<noteq> [] \<Longrightarrow> hd L \<notin> set a \<Longrightarrow> clearOf L (a @ s) = clearOf L s\<close>
  by (induction a) (auto simp: prefix_def neq_Nil_conv)

lemma prefix_append_line_feed:
  assumes \<open>prefix L (u @ v)\<close> \<open>v = [] \<or> hd v \<notin> set L\<close>
  shows \<open>prefix L u\<close>
proof (cases \<open>length L \<le> length u\<close>)
  case True
  with assms(1) show ?thesis by (metis prefix_append prefix_order.eq_iff prefix_def append_eq_append_conv_if)
next
  case False
  then have l: \<open>length u < length L\<close> by simp
  from assms(1) obtain w where w: \<open>u @ v = L @ w\<close> by (auto simp: prefix_def)
  then have \<open>v \<noteq> []\<close> using l by (metis append_Nil2 length_append not_add_less1)
  then obtain y ys where v: \<open>v = y # ys\<close> by (cases v) auto
  from w l have \<open>L ! length u = (u @ v) ! length u\<close>
    by (metis nth_append)
  then have \<open>y \<in> set L\<close> using l by (simp add: v nth_append) (metis nth_mem)
  with assms(2) v show ?thesis by simp
qed

lemma blockOk_inert:
  assumes lit: \<open>\<And>b s. reMatchAt r b s \<noteq> None \<Longrightarrow> prefix L s\<close>
    and \<open>L \<noteq> []\<close> \<open>CHR 0x0A \<notin> set L\<close> \<open>clearOf L t\<close> \<open>tail = [] \<or> hd tail = CHR 0x0A\<close>
  shows \<open>blockOk r b t None tail\<close>
proof -
  have nl: \<open>tail = [] \<or> hd tail \<notin> set L\<close> using assms(3,5) by auto
  have 1: \<open>reMatchAt r b' tail = None\<close> for b'
  proof (rule ccontr)
    assume \<open>reMatchAt r b' tail \<noteq> None\<close>
    then have \<open>prefix L tail\<close> by (rule lit)
    then show False using assms(2,3,5) by (cases tail; cases L) auto
  qed
  have 2: \<open>reMatchAt r b' (drop i t @ tail) = None\<close> if \<open>i < length t\<close> for i b'
  proof (rule ccontr)
    assume \<open>reMatchAt r b' (drop i t @ tail) \<noteq> None\<close>
    then have \<open>prefix L (drop i t @ tail)\<close> by (rule lit)
    then have \<open>prefix L (drop i t)\<close> using nl by (rule prefix_append_line_feed)
    with clearOf_drop [OF assms(4) that] show False by simp
  qed
  show ?thesis by (simp add: blockOk_def 1 2)
qed

lemma literal_tail:
  assumes lit: \<open>\<And>b s. reMatchAt r b s \<noteq> None \<Longrightarrow> prefix L s\<close>
    and \<open>L \<noteq> []\<close> \<open>CHR 0x0A \<notin> set L\<close> \<open>tail = [] \<or> hd tail = CHR 0x0A\<close>
  shows \<open>reMatchAt r b tail = None\<close>
proof (rule ccontr)
  assume \<open>reMatchAt r b tail \<noteq> None\<close>
  then have \<open>prefix L tail\<close> by (rule lit)
  then show False using assms(2-4) by (cases tail; cases L) auto
qed

lemma blocksTail_Nil [simp]: \<open>blocksTail [] = []\<close>
  by (simp add: blocksTail_def)

lemma blocksTail_shape: \<open>blocksTail ts = [] \<or> hd (blocksTail ts) = CHR 0x0A\<close>
  by (simp add: blocksTail_def)

lemma rm_Lit_append: \<open>rm (Lit L) b (L @ s) c k = k (rev L @ b) s c\<close>
  by simp

text \<open>More forms of the matcher: a greedy repetition that gives back one character,
  and a lazy body up to the first place where the rest of the pattern matches.\<close>

lemma greedyTry_one_back:
  assumes \<open>P x\<close> \<open>ys = [] \<or> \<not> P (hd ys)\<close> \<open>k (x # b) ys c = None\<close>
  shows \<open>greedyTry P k b (x # ys) c = k b (x # ys) c\<close>
proof -
  have \<open>greedyTry P k (x # b) ys c = k (x # b) ys c\<close>
    using assms(2) by (cases ys) auto
  with assms(1,3) show ?thesis by simp
qed

lemma rm_Grp_lazy:
  assumes \<open>\<And>i c'. i < length body \<Longrightarrow> k (rev (take i body) @ b) (drop i body @ rest) c' = None\<close>
    and \<open>k (rev body @ b) rest (c(g \<mapsto> body)) \<noteq> None\<close>
  shows \<open>rm (Grp g (StarL AnyCh)) b (body @ rest) c k = k (rev body @ b) rest (c(g \<mapsto> body))\<close>
proof -
  define k' :: mcont where
    \<open>k' = (\<lambda>b' s' c'. k b' s' (c'(g \<mapsto> take (length (body @ rest) - length s') (body @ rest))))\<close>
  have first: \<open>\<forall>i < length body. k' (rev (take i body) @ b) (drop i body @ rest) c = None\<close>
    using assms(1) by (simp add: k'_def)
  have here: \<open>k' (rev body @ b) rest c = k (rev body @ b) rest (c(g \<mapsto> body))\<close>
    by (simp add: k'_def)
  have \<open>rm (Grp g (StarL AnyCh)) b (body @ rest) c k = lazyTry k' b (body @ rest) c\<close>
    by (simp add: k'_def)
  also have \<open>\<dots> = lazyTry k' (rev body @ b) rest c\<close>
    using first by (rule lazyTry_first)
  also have \<open>\<dots> = k' (rev body @ b) rest c\<close>
    using here assms(2) by (intro lazyTry_here) simp
  finally show ?thesis using here by simp
qed

lemma prefix_append_last:
  assumes \<open>prefix L (u @ v)\<close> \<open>u \<noteq> []\<close> \<open>last u \<notin> set L\<close>
  shows \<open>prefix L u\<close>
proof (cases \<open>length L \<le> length u\<close>)
  case True
  from assms(1) obtain w where w: \<open>u @ v = L @ w\<close> by (auto simp: prefix_def)
  with True have \<open>L = take (length L) u\<close>
    by (metis append_eq_conv_conj take_append diff_is_0_eq take_0 append_Nil2)
  then show ?thesis by (metis take_is_prefix)
next
  case False
  then have l: \<open>length u < length L\<close> by simp
  from assms(1) obtain w where w: \<open>u @ v = L @ w\<close> by (auto simp: prefix_def)
  have \<open>L ! (length u - 1) = (u @ v) ! (length u - 1)\<close>
    using l w by (metis nth_append less_imp_diff_less)
  also have \<open>\<dots> = last u\<close>
    using assms(2) by (simp add: nth_append last_conv_nth)
  finally have \<open>last u \<in> set L\<close>
    using l by (metis less_imp_diff_less nth_mem)
  with assms(3) show ?thesis by simp
qed

text \<open>The end of a fenced pattern, \<^verbatim>\<open>\s*\n([\s\S]*?)E\<close>, on a line feed, a body that does
  not begin with white space and in which the closing text \<open>E\<close> does not occur, and
  the closing text.\<close>

lemma fence_body:
  assumes \<open>E \<noteq> []\<close> \<open>\<not> isSpace (hd E)\<close> \<open>body = [] \<or> \<not> isSpace (hd body)\<close>
    and \<open>\<And>i. i < length body \<Longrightarrow> \<not> prefix E (drop i body @ E @ tail)\<close>
  shows \<open>rm (seqs [Star (Cls isSpace), Chr CHR 0x0A, Grp g (StarL AnyCh), Lit E]) b
            (CHR 0x0A # body @ E @ tail) c (\<lambda>b' s' c'. Some (s', c'))
         = Some (tail, c(g \<mapsto> body))\<close>
proof -
  let ?fin = \<open>(\<lambda>b' s' c'. Some (s', c')) :: mcont\<close>
  let ?k3 = \<open>\<lambda>b' s' c'. rm (seqs [Lit E]) b' s' c' ?fin\<close>
  let ?k2 = \<open>\<lambda>b' s' c'. rm (seqs [Grp g (StarL AnyCh), Lit E]) b' s' c' ?fin\<close>
  let ?k1 = \<open>\<lambda>b' s' c'. rm (seqs [Chr CHR 0x0A, Grp g (StarL AnyCh), Lit E]) b' s' c' ?fin\<close>
  have k3: \<open>?k3 b' (E @ tail) c' = Some (tail, c')\<close> for b' c'
    by simp
  have k3n: \<open>?k3 b' (drop i body @ E @ tail) c' = None\<close> if \<open>i < length body\<close> for i b' c'
    using assms(4) [OF that] by simp
  have \<open>rm (Grp g (StarL AnyCh)) b' (body @ E @ tail) c' ?k3
          = ?k3 (rev body @ b') (E @ tail) (c'(g \<mapsto> body))\<close> for b' c'
    by (rule rm_Grp_lazy) (use k3 k3n in simp_all)
  then have k2: \<open>?k2 b' (body @ E @ tail) c' = Some (tail, c'(g \<mapsto> body))\<close> for b' c'
    using k3 by (simp del: rm.simps(8))
  have k1: \<open>?k1 b' (CHR 0x0A # body @ E @ tail) c' = Some (tail, c'(g \<mapsto> body))\<close> for b' c'
    using k2 [of \<open>CHR 0x0A # b'\<close> c'] by (simp del: rm.simps(8))
  have nx: \<open>body @ E @ tail = [] \<or> \<not> isSpace (hd (body @ E @ tail))\<close>
    using assms(1-3) by (cases body) auto
  have k1n: \<open>?k1 (CHR 0x0A # b) (body @ E @ tail) c = None\<close>
  proof (cases \<open>body @ E @ tail\<close>)
    case Nil
    then show ?thesis by simp
  next
    case (Cons y ys)
    with nx have \<open>y \<noteq> CHR 0x0A\<close> by (auto simp: isSpace_def)
    with Cons show ?thesis by (simp del: rm.simps(8))
  qed
  have \<open>greedyTry isSpace ?k1 b (CHR 0x0A # body @ E @ tail) c = ?k1 b (CHR 0x0A # body @ E @ tail) c\<close>
    using nx k1n by (intro greedyTry_one_back) (simp_all add: isSpace_def)
  then show ?thesis
    using k1 [of b c] by (simp del: rm.simps(8) rm.simps(1))
qed

section \<open>Documents with figures\<close>

text \<open>
  A document for the figure resolver, line by line: a line of text, or the
  definition of a target, \<^verbatim>\<open>(name)=![alt](src)\<close>. The resolver replaces a definition
  by a comment and keeps a line of text.
\<close>

datatype fitem = Line string | Target string string string

definition targetLine :: \<open>string \<Rightarrow> string \<Rightarrow> string \<Rightarrow> string\<close> where
  \<open>targetLine n a s = ''('' @ n @ '')=!['' @ a @ '']('' @ s @ '')''\<close>

primrec itemSrc :: \<open>fitem \<Rightarrow> string\<close> where
  \<open>itemSrc (Line l) = l\<close>
| \<open>itemSrc (Target n a s) = targetLine n a s\<close>

primrec itemOut :: \<open>fitem \<Rightarrow> string\<close> where
  \<open>itemOut (Line l) = l\<close>
| \<open>itemOut (Target n a s) = ''<!-- target:'' @ n @ '' defined -->''\<close>

text \<open>A line of text: it does not begin with \<^verbatim>\<open>(\<close>, and it holds no backtick and no
  line terminator. A definition: the name and the source are not empty, the
  parts hold no line terminator and not the character that ends them, and the
  name holds no backtick.\<close>

definition oneLine :: \<open>string \<Rightarrow> bool\<close> where
  \<open>oneLine l \<longleftrightarrow> list_all (\<lambda>c. \<not> isLineTerm c) l\<close>

definition textLine :: \<open>string \<Rightarrow> bool\<close> where
  \<open>textLine l \<longleftrightarrow> (l = [] \<or> hd l \<noteq> CHR ''('') \<and> btick \<notin> set l \<and> oneLine l\<close>

definition validTarget :: \<open>string \<Rightarrow> string \<Rightarrow> string \<Rightarrow> bool\<close> where
  \<open>validTarget n a s \<longleftrightarrow>
     n \<noteq> [] \<and> CHR '')'' \<notin> set n \<and> btick \<notin> set n \<and> oneLine n
     \<and> CHR '']'' \<notin> set a \<and> oneLine a
     \<and> s \<noteq> [] \<and> CHR '')'' \<notin> set s \<and> oneLine s\<close>

text \<open>The items of a document in which the target \<open>name\<close> is not defined.\<close>

primrec itemWithout :: \<open>string \<Rightarrow> fitem \<Rightarrow> bool\<close> where
  \<open>itemWithout name (Line l) \<longleftrightarrow> textLine l\<close>
| \<open>itemWithout name (Target n a s) \<longleftrightarrow> validTarget n a s \<and> n \<noteq> name\<close>

text \<open>A figure directive with a back-reference: the opening line
  \<^verbatim>\<open>```{figure} #name\<close>, the lines of the body, the closing fence. The white space
  before the argument is \<open>ws\<close>; the first line of the body, if there is one, begins
  with a character that is not white space.\<close>

definition figureOpening :: \<open>string \<Rightarrow> string \<Rightarrow> string\<close> where
  \<open>figureOpening ws name = ''```{figure}'' @ ws @ ''#'' @ name\<close>

definition figureBody :: \<open>string list \<Rightarrow> string\<close> where
  \<open>figureBody ls = concat (map (\<lambda>l. l @ nl) ls)\<close>

definition blankRun :: \<open>string \<Rightarrow> bool\<close> where
  \<open>blankRun ws \<longleftrightarrow> list_all (\<lambda>c. isSpace c \<and> \<not> isLineTerm c) ws\<close>

definition targetName :: \<open>string \<Rightarrow> bool\<close> where
  \<open>targetName name \<longleftrightarrow> name \<noteq> [] \<and> list_all (\<lambda>c. \<not> isSpace c) name\<close>

definition bodyLinesOk :: \<open>string list \<Rightarrow> bool\<close> where
  \<open>bodyLinesOk ls \<longleftrightarrow> list_all textLine ls \<and> (ls = [] \<or> (hd ls \<noteq> [] \<and> \<not> isSpace (hd (hd ls))))\<close>

definition targetCaps :: \<open>fitem \<Rightarrow> caps option\<close> where
  \<open>targetCaps it = (case it of Line l \<Rightarrow> None | Target n a s \<Rightarrow> Some ((\<lambda>_. None)(1 \<mapsto> n, 2 \<mapsto> a, 3 \<mapsto> s)))\<close>

definition addTarget :: \<open>targets \<Rightarrow> fitem \<Rightarrow> targets\<close> where
  \<open>addTarget tg it = (case it of Line l \<Rightarrow> tg | Target n a s \<Rightarrow> snd (targetCb [] ((\<lambda>_. None)(1 \<mapsto> n, 2 \<mapsto> a, 3 \<mapsto> s)) tg))\<close>

subsection \<open>The pass over the target definitions\<close>

lemma lineTerm_nl [simp]: \<open>isLineTerm CHR 0x0A\<close>
  by (simp add: isLineTerm_def)

lemma reTarget_match:
  assumes \<open>lineStart b\<close> \<open>validTarget n a s\<close> \<open>tail = [] \<or> hd tail = CHR 0x0A\<close>
  shows \<open>reMatchAt reTarget b (targetLine n a s @ tail)
         = Some (length (targetLine n a s), (\<lambda>_. None)(1 \<mapsto> n, 2 \<mapsto> a, 3 \<mapsto> s))\<close>
proof -
  let ?fin = \<open>(\<lambda>b' s' c'. Some (s', c')) :: mcont\<close>
  let ?k4 = \<open>\<lambda>b' s' c'. rm (seqs [Chr CHR '')'', EolM]) b' s' c' ?fin\<close>
  let ?k3 = \<open>\<lambda>b' s' c'. rm (seqs [Lit '']('', Grp 3 (Plus (Cls (\<lambda>c. c \<noteq> CHR '')''))), Chr CHR '')'', EolM]) b' s' c' ?fin\<close>
  let ?k2 = \<open>\<lambda>b' s' c'. rm (seqs [Lit '')=!['', Grp 2 (Star (Cls (\<lambda>c. c \<noteq> CHR '']''))), Lit '']('',
                 Grp 3 (Plus (Cls (\<lambda>c. c \<noteq> CHR '')''))), Chr CHR '')'', EolM]) b' s' c' ?fin\<close>
  from assms(2) have v: \<open>n \<noteq> []\<close> \<open>CHR '')'' \<notin> set n\<close> \<open>CHR '']'' \<notin> set a\<close> \<open>s \<noteq> []\<close> \<open>CHR '')'' \<notin> set s\<close>
    by (simp_all add: validTarget_def)
  have k4: \<open>?k4 b' (CHR '')'' # tail) c' = Some (tail, c')\<close> for b' c'
    using assms(3) by auto
  have \<open>rm (Grp 3 (Plus (Cls (\<lambda>c. c \<noteq> CHR '')'')))) b' (s @ CHR '')'' # tail) c' ?k4
          = ?k4 (rev s @ b') (CHR '')'' # tail) (c'(3 \<mapsto> s))\<close> for b' c'
    by (rule rm_Grp_Plus_max) (use v k4 in auto)
  then have k3: \<open>?k3 b' ('']('' @ s @ CHR '')'' # tail) c' = Some (tail, c'(3 \<mapsto> s))\<close> for b' c'
    using k4 by (simp del: rm.simps(8) rm_Plus_Cls)
  have \<open>rm (Grp 2 (Star (Cls (\<lambda>c. c \<noteq> CHR '']'')))) b' (a @ '']('' @ s @ CHR '')'' # tail) c' ?k3
          = ?k3 (rev a @ b') ('']('' @ s @ CHR '')'' # tail) (c'(2 \<mapsto> a))\<close> for b' c'
    by (rule rm_Grp_Star_max) (use v k3 in auto)
  then have k2: \<open>?k2 b' ('')=!['' @ a @ '']('' @ s @ CHR '')'' # tail) c' = Some (tail, c'(2 \<mapsto> a, 3 \<mapsto> s))\<close> for b' c'
    using k3 by (simp del: rm.simps(8) rm_Plus_Cls rm_Star_Cls)
  have \<open>rm (Grp 1 (Plus (Cls (\<lambda>c. c \<noteq> CHR '')'')))) b' (n @ '')=!['' @ a @ '']('' @ s @ CHR '')'' # tail) c' ?k2
          = ?k2 (rev n @ b') ('')=!['' @ a @ '']('' @ s @ CHR '')'' # tail) (c'(1 \<mapsto> n))\<close> for b' c'
    by (rule rm_Grp_Plus_max) (use v k2 in auto)
  then have \<open>rm reTarget b (targetLine n a s @ tail) (\<lambda>_. None) ?fin
               = Some (tail, (\<lambda>_. None)(1 \<mapsto> n, 2 \<mapsto> a, 3 \<mapsto> s))\<close>
    using k2 assms(1)
    by (simp add: reTarget_def targetLine_def NotCh_def lineStart_def
        del: rm.simps(8) rm_Plus_Cls rm_Star_Cls) auto
  then show ?thesis by (simp add: reMatchAt_def)
qed

lemma reTarget_text_line:
  assumes \<open>lineStart b\<close> \<open>l = [] \<or> hd l \<noteq> CHR ''(''\<close> \<open>oneLine l\<close> \<open>tail = [] \<or> hd tail = CHR 0x0A\<close>
  shows \<open>blockOk reTarget b l None tail\<close>
proof -
  have paren: \<open>reMatchAt reTarget b' s = None\<close> if \<open>s = [] \<or> hd s \<noteq> CHR ''(''\<close> for b' s
    using that by (cases s) (auto simp: reMatchAt_def reTarget_def)
  have mid: \<open>reMatchAt reTarget b' s = None\<close> if \<open>b' \<noteq> []\<close> \<open>\<not> isLineTerm (hd b')\<close> for b' s
    using that by (simp add: reMatchAt_def reTarget_def)
  have 1: \<open>reMatchAt reTarget (rev l @ b) tail = None\<close>
    using assms(4) by (intro paren) auto
  have 2: \<open>reMatchAt reTarget (rev (take i l) @ b) (drop i l @ tail) = None\<close> if \<open>i < length l\<close> for i
  proof (cases i)
    case 0
    with that assms(2) show ?thesis by (intro paren) (cases l; auto)
  next
    case (Suc j)
    with that have \<open>take i l = take j l @ [l ! j]\<close> by (simp add: take_Suc_conv_app_nth)
    moreover have \<open>\<not> isLineTerm (l ! j)\<close>
      using assms(3) that Suc by (simp add: oneLine_def list_all_length)
    ultimately show ?thesis by (intro mid) simp_all
  qed
  show ?thesis by (simp add: blockOk_def 1 2)
qed

lemma reTarget_target_line:
  assumes \<open>lineStart b\<close> \<open>validTarget n a s\<close> \<open>tail = [] \<or> hd tail = CHR 0x0A\<close>
  shows \<open>blockOk reTarget b (targetLine n a s) (Some ((\<lambda>_. None)(1 \<mapsto> n, 2 \<mapsto> a, 3 \<mapsto> s))) tail\<close>
proof -
  have \<open>reMatchAt reTarget (rev (targetLine n a s) @ b) tail = None\<close>
    using assms(3) by (cases tail) (auto simp: reMatchAt_def reTarget_def)
  then show ?thesis
    using reTarget_match [OF assms] by (simp add: blockOk_def targetLine_def)
qed

definition lineOk :: \<open>fitem \<Rightarrow> bool\<close> where
  \<open>lineOk it = (case it of Line l \<Rightarrow> (l = [] \<or> hd l \<noteq> CHR ''('') \<and> oneLine l | Target n a s \<Rightarrow> validTarget n a s)\<close>

lemma blockStep_target:
  \<open>blockStep targetCb (itemSrc it, targetCaps it) tg = (itemOut it, addTarget tg it)\<close>
  by (cases it) (simp_all add: blockStep_def targetCaps_def addTarget_def targetCb_def Let_def capText_def)

lemma mapAcc_targets:
  \<open>mapAcc (blockStep targetCb) (map (\<lambda>it. (itemSrc it, targetCaps it)) its) tg
     = (map itemOut its, foldl addTarget tg its)\<close>
proof (induction its arbitrary: tg)
  case Nil
  then show ?case by simp
next
  case (Cons it its)
  show ?case
    by (simp add: blockStep_target Cons)
qed

lemma targets_pass:
  assumes \<open>its \<noteq> []\<close> \<open>\<forall>it \<in> set its. lineOk it\<close>
  shows \<open>replaceAllSt reTarget targetCb (joinWith nl (map itemSrc its)) tg
         = (joinWith nl (map itemOut its), foldl addTarget tg its)\<close>
proof -
  let ?blks = \<open>map (\<lambda>it. (itemSrc it, targetCaps it)) its\<close>
  have src: \<open>map fst ?blks = map itemSrc its\<close> by (simp add: comp_def)
  have \<open>replaceG reTarget (\<lambda>b m a. targetCb m) [] 0 (joinWith nl (map fst ?blks)) tg
          = (case mapAcc (blockStep targetCb) ?blks tg of (out, st') \<Rightarrow> (joinWith nl out, st'))\<close>
  proof (rule replaceG_blocks)
    show \<open>?blks \<noteq> []\<close> using assms(1) by simp
    show \<open>lineStart []\<close> by (simp add: lineStart_def)
    fix as t x cs b
    assume sp: \<open>?blks = as @ (t, x) # cs\<close> and b: \<open>lineStart b\<close>
    then have \<open>(t, x) \<in> set ?blks\<close> by simp
    then obtain it where it: \<open>it \<in> set its\<close> \<open>t = itemSrc it\<close> \<open>x = targetCaps it\<close> by auto
    with assms(2) have ok: \<open>lineOk it\<close> by simp
    show \<open>blockOk reTarget b t x (blocksTail (map fst cs))\<close>
    proof (cases it)
      case (Line l)
      with ok it show ?thesis
        using reTarget_text_line [OF b _ _ blocksTail_shape, of l]
        by (simp add: lineOk_def targetCaps_def)
    next
      case (Target n a s)
      with ok it show ?thesis
        using reTarget_target_line [OF b _ blocksTail_shape, of n a s]
        by (simp add: lineOk_def targetCaps_def)
    qed
  qed
  then show ?thesis
    unfolding src by (simp add: replaceAllSt_def mapAcc_targets)
qed

lemma addTarget_other:
  assumes \<open>tg name = None\<close> \<open>\<forall>it \<in> set its. case it of Line l \<Rightarrow> True | Target n a s \<Rightarrow> n \<noteq> name\<close>
  shows \<open>foldl addTarget tg its name = None\<close>
  using assms
proof (induction its arbitrary: tg)
  case Nil
  then show ?case by simp
next
  case (Cons it its)
  have \<open>addTarget tg it name = None\<close>
    using Cons.prems by (cases it) (auto simp: addTarget_def targetCb_def Let_def capText_def)
  with Cons show ?case by simp
qed

subsection \<open>The pass over the figure directives\<close>

lemma mapAcc_append:
  \<open>mapAcc f (xs @ ys) st =
     (case mapAcc f xs st of (as, st1) \<Rightarrow> (case mapAcc f ys st1 of (bs', st2) \<Rightarrow> (as @ bs', st2)))\<close>
  by (induction xs arbitrary: st) (simp_all split: prod.splits)

lemma mapAcc_inert: \<open>mapAcc (blockStep f) (map (\<lambda>l. (l, None)) xs) st = (xs, st)\<close>
  by (induction xs) (simp_all add: blockStep_def)

lemma joinWith_flatten_head:
  \<open>ys \<noteq> [] \<Longrightarrow> joinWith nl (ys @ zs) = joinWith nl (joinWith nl ys # zs)\<close>
proof (induction ys rule: list_nonempty_induct)
  case (single y)
  then show ?case by simp
next
  case (cons y ys)
  then show ?case
    by (cases ys; cases zs) (simp_all add: joinWith_Cons blocksTail_def)
qed

lemma joinWith_flatten:
  \<open>ys \<noteq> [] \<Longrightarrow> joinWith nl (xs @ ys @ zs) = joinWith nl (xs @ [joinWith nl ys] @ zs)\<close>
proof (induction xs)
  case Nil
  then show ?case by (simp add: joinWith_flatten_head)
next
  case (Cons x xs)
  then show ?case by (simp add: joinWith_Cons blocksTail_def)
qed

lemma figure_text:
  \<open>joinWith nl (opening # ls @ [fence]) = opening @ nl @ figureBody ls @ fence\<close>
proof -
  have \<open>blocksTail (ls @ [fence]) = nl @ figureBody ls @ fence\<close>
    by (induction ls) (simp_all add: blocksTail_Cons figureBody_def nl_def)
  then show ?thesis by (simp add: joinWith_Cons)
qed

lemma figureBody_props:
  assumes \<open>bodyLinesOk ls\<close>
  shows \<open>figureBody ls = [] \<or> \<not> isSpace (hd (figureBody ls))\<close> \<open>btick \<notin> set (figureBody ls)\<close>
proof -
  show \<open>figureBody ls = [] \<or> \<not> isSpace (hd (figureBody ls))\<close>
    using assms by (cases ls) (auto simp: bodyLinesOk_def figureBody_def)
  show \<open>btick \<notin> set (figureBody ls)\<close>
    using assms by (auto simp: bodyLinesOk_def figureBody_def list_all_iff textLine_def nl_def btick_def)
qed

lemma reFigure_literal: \<open>reMatchAt reFigure b s \<noteq> None \<Longrightarrow> prefix ''```{figure}'' s\<close>
  by (auto simp: reMatchAt_def reFigure_def split: if_splits)

lemma reFigure_match:
  assumes \<open>blankRun ws\<close> \<open>targetName name\<close> \<open>bodyLinesOk ls\<close>
  shows \<open>reMatchAt reFigure b ((figureOpening ws name @ nl @ figureBody ls @ ''```'') @ tail)
         = Some (length (figureOpening ws name @ nl @ figureBody ls @ ''```''),
                 (\<lambda>_. None)(1 \<mapsto> CHR ''#'' # name, 2 \<mapsto> figureBody ls))\<close>
proof -
  let ?fin = \<open>(\<lambda>b' s' c'. Some (s', c')) :: mcont\<close>
  let ?body = \<open>figureBody ls\<close>
  let ?E = \<open>''```''\<close>
  let ?k2 = \<open>\<lambda>b' s' c'. rm (seqs [Star (Cls isSpace), Chr CHR 0x0A, Grp 2 (StarL AnyCh), Lit ?E]) b' s' c' ?fin\<close>
  let ?k1 = \<open>\<lambda>b' s' c'. rm (seqs [Grp 1 (Plus (Cls (\<lambda>c. \<not> isSpace c))), Star (Cls isSpace), Chr CHR 0x0A,
                 Grp 2 (StarL AnyCh), Lit ?E]) b' s' c' ?fin\<close>
  let ?arg = \<open>CHR ''#'' # name\<close>
  have bp: \<open>?body = [] \<or> \<not> isSpace (hd ?body)\<close> \<open>btick \<notin> set ?body\<close>
    using assms(3) by (rule figureBody_props)+
  have nobt: \<open>\<not> prefix ?E (drop i ?body @ ?E @ tail)\<close> if \<open>i < length ?body\<close> for i
  proof -
    from that obtain y ys where d: \<open>drop i ?body = y # ys\<close> by (cases \<open>drop i ?body\<close>) auto
    then have \<open>y \<in> set ?body\<close> by (metis in_set_dropD list.set_intros(1))
    with bp(2) have \<open>y \<noteq> CHR ''`''\<close> by (auto simp: btick_def)
    with d show ?thesis by simp
  qed
  have k2: \<open>?k2 b' (CHR 0x0A # ?body @ ?E @ tail) c' = Some (tail, c'(2 \<mapsto> ?body))\<close> for b' c'
    by (rule fence_body) (use bp nobt in \<open>simp_all add: isSpace_def\<close>)
  have arg: \<open>\<forall>x \<in> set ?arg. \<not> isSpace x\<close>
    using assms(2) by (auto simp: targetName_def list_all_iff isSpace_def)
  have \<open>rm (Grp 1 (Plus (Cls (\<lambda>c. \<not> isSpace c)))) b' (?arg @ CHR 0x0A # ?body @ ?E @ tail) c' ?k2
          = ?k2 (rev ?arg @ b') (CHR 0x0A # ?body @ ?E @ tail) (c'(1 \<mapsto> ?arg))\<close> for b' c'
    by (rule rm_Grp_Plus_max) (use arg k2 in \<open>simp_all add: isSpace_def\<close>)
  then have g1: \<open>rm (Grp 1 (Plus (Cls (\<lambda>c. \<not> isSpace c)))) b' (?arg @ CHR 0x0A # ?body @ ?E @ tail) c' ?k2
          = Some (tail, c'(1 \<mapsto> ?arg, 2 \<mapsto> ?body))\<close> for b' c'
    using k2 by (simp del: rm.simps(1) rm.simps(8) rm_Plus_Cls rm_Star_Cls rm_StarL_Any rm_seqs_Cons rm_Lit)
  have k1: \<open>?k1 b' (?arg @ CHR 0x0A # ?body @ ?E @ tail) c' = Some (tail, c'(1 \<mapsto> ?arg, 2 \<mapsto> ?body))\<close> for b' c'
  proof -
    have \<open>?k1 b' (?arg @ CHR 0x0A # ?body @ ?E @ tail) c'
            = rm (Grp 1 (Plus (Cls (\<lambda>c. \<not> isSpace c)))) b' (?arg @ CHR 0x0A # ?body @ ?E @ tail) c' ?k2\<close>
      by (rule rm_seqs_Cons)
    also note g1
    finally show ?thesis .
  qed
  have ws: \<open>\<forall>x \<in> set ws. isSpace x\<close>
    using assms(1) by (auto simp: blankRun_def list_all_iff)
  have \<open>rm (Star (Cls isSpace)) b' (ws @ ?arg @ CHR 0x0A # ?body @ ?E @ tail) c' ?k1
          = ?k1 (rev ws @ b') (?arg @ CHR 0x0A # ?body @ ?E @ tail) c'\<close> for b' c'
    by (rule rm_Star_max) (use ws k1 in \<open>simp_all add: isSpace_def del: rm.simps(1) rm.simps(8) rm_Plus_Cls rm_Star_Cls rm_StarL_Any rm_seqs_Cons rm_Lit\<close>)
  then have g0: \<open>rm (Star (Cls isSpace)) b' (ws @ ?arg @ CHR 0x0A # ?body @ ?E @ tail) c' ?k1
          = Some (tail, c'(1 \<mapsto> ?arg, 2 \<mapsto> ?body))\<close> for b' c'
    using k1 by (simp del: rm.simps(1) rm.simps(8) rm_Plus_Cls rm_Star_Cls rm_StarL_Any rm_seqs_Cons rm_Lit)
  let ?L = \<open>''```{figure}''\<close>
  let ?k0 = \<open>\<lambda>b' s' c'. rm (seqs [Star (Cls isSpace), Grp 1 (Plus (Cls (\<lambda>c. \<not> isSpace c))), Star (Cls isSpace),
                 Chr CHR 0x0A, Grp 2 (StarL AnyCh), Lit ?E]) b' s' c' ?fin\<close>
  let ?rest = \<open>ws @ ?arg @ CHR 0x0A # ?body @ ?E @ tail\<close>
  have whole: \<open>(figureOpening ws name @ nl @ ?body @ ?E) @ tail = ?L @ ?rest\<close>
    by (simp add: figureOpening_def nl_def)
  have \<open>rm reFigure b (?L @ ?rest) (\<lambda>_. None) ?fin = rm (Lit ?L) b (?L @ ?rest) (\<lambda>_. None) ?k0\<close>
    unfolding reFigure_def by (rule rm_seqs_Cons)
  also have \<open>\<dots> = ?k0 (rev ?L @ b) ?rest (\<lambda>_. None)\<close>
    by (rule rm_Lit_append)
  also have \<open>\<dots> = rm (Star (Cls isSpace)) (rev ?L @ b) ?rest (\<lambda>_. None) ?k1\<close>
    by (rule rm_seqs_Cons)
  also note g0
  finally have \<open>rm reFigure b ((figureOpening ws name @ nl @ ?body @ ?E) @ tail) (\<lambda>_. None) ?fin
               = Some (tail, (\<lambda>_. None)(1 \<mapsto> ?arg, 2 \<mapsto> ?body))\<close>
    unfolding whole .
  then show ?thesis by (simp add: reMatchAt_def)
qed

lemma figure_pass:
  assumes \<open>\<forall>l \<in> set xs. btick \<notin> set l\<close> \<open>\<forall>l \<in> set zs. btick \<notin> set l\<close>
    and \<open>blankRun ws\<close> \<open>targetName name\<close> \<open>bodyLinesOk ls\<close>
  shows \<open>replaceAllFn reFigure f (joinWith nl (xs @ [figureOpening ws name @ nl @ figureBody ls @ ''```''] @ zs))
         = joinWith nl (xs @ [f (figureOpening ws name @ nl @ figureBody ls @ ''```'')
                                ((\<lambda>_. None)(1 \<mapsto> CHR ''#'' # name, 2 \<mapsto> figureBody ls))] @ zs)\<close>
proof -
  let ?fig = \<open>figureOpening ws name @ nl @ figureBody ls @ ''```''\<close>
  let ?c = \<open>(\<lambda>_. None)(1 \<mapsto> CHR ''#'' # name, 2 \<mapsto> figureBody ls) :: caps\<close>
  let ?blks = \<open>map (\<lambda>l. (l, None)) xs @ [(?fig, Some ?c)] @ map (\<lambda>l. (l, None)) zs\<close>
  let ?F = \<open>\<lambda>m c (st :: unit). (f m c, st)\<close>
  have src: \<open>map fst ?blks = xs @ [?fig] @ zs\<close> by (simp add: comp_def)
  have res: \<open>mapAcc (blockStep ?F) ?blks () = (xs @ [f ?fig ?c] @ zs, ())\<close>
    by (simp add: mapAcc_append mapAcc_inert blockStep_def)
  have \<open>replaceG reFigure (\<lambda>b m a. ?F m) [] 0 (joinWith nl (map fst ?blks)) ()
          = (case mapAcc (blockStep ?F) ?blks () of (out, st') \<Rightarrow> (joinWith nl out, st'))\<close>
  proof (rule replaceG_blocks)
    show \<open>?blks \<noteq> []\<close> by simp
    show \<open>lineStart []\<close> by (simp add: lineStart_def)
    fix as t x cs b
    assume sp: \<open>?blks = as @ (t, x) # cs\<close> and b: \<open>lineStart b\<close>
    then have \<open>(t, x) \<in> set ?blks\<close> by (metis in_set_conv_decomp)
    then consider \<open>x = None\<close> \<open>btick \<notin> set t\<close> | \<open>t = ?fig\<close> \<open>x = Some ?c\<close>
      using assms(1,2) by auto
    then show \<open>blockOk reFigure b t x (blocksTail (map fst cs))\<close>
    proof cases
      case 1
      have \<open>blockOk reFigure b t None (blocksTail (map fst cs))\<close>
      proof (rule blockOk_inert [where L = \<open>''```{figure}''\<close>])
        show \<open>clearOf ''```{figure}'' t\<close>
          using 1(2) by (intro clearOf_first) (simp_all add: btick_def)
      qed (use reFigure_literal blocksTail_shape in auto)
      with 1 show ?thesis by simp
    next
      case 2
      have \<open>reMatchAt reFigure (rev ?fig @ b) (blocksTail (map fst cs)) = None\<close>
        by (rule literal_tail [where L = \<open>''```{figure}''\<close>]) (use reFigure_literal blocksTail_shape in auto)
      moreover have \<open>?fig \<noteq> []\<close> by (simp add: figureOpening_def)
      ultimately show ?thesis
        using reFigure_match [OF assms(3-5), of b \<open>blocksTail (map fst cs)\<close>] 2
        by (simp add: blockOk_def)
    qed
  qed
  then show ?thesis
    unfolding src res by (simp add: replaceAllFn_def)
qed

subsection \<open>A figure that refers to an undefined target\<close>

lemma figureCb_undefined:
  assumes \<open>capText c 1 = CHR ''#'' # name\<close> and \<open>tg name = None\<close>
  shows \<open>figureCb tg m c =
     ''<figure class="myst-figure'' @ figAlignClass (figOptions (capText c 2)) @ ''"''
       @ figIdAttr (figOptions (capText c 2))
       @ ''><div class="figure-error">Image target not found</div>''
       @ figcaptionOf (figCaption (capText c 2)) @ ''</figure>''\<close>
  using assms by (simp add: figureCb_def Let_def startsWith_def)

lemma isLineTerm_isSpace: \<open>isLineTerm c \<Longrightarrow> isSpace c\<close>
  by (auto simp: isLineTerm_def isSpace_def)

lemma figureOpening_line:
  assumes \<open>blankRun ws\<close> \<open>targetName name\<close>
  shows \<open>lineOk (Line (figureOpening ws name))\<close>
  using assms
  by (auto simp: lineOk_def figureOpening_def oneLine_def blankRun_def targetName_def list_all_iff
      isLineTerm_def isSpace_def)

lemma itemWithout_lineOk: \<open>itemWithout name it \<Longrightarrow> lineOk it\<close>
  by (cases it) (simp_all add: lineOk_def textLine_def)

lemma itemWithout_no_backtick: \<open>itemWithout name it \<Longrightarrow> btick \<notin> set (itemOut it)\<close>
  by (cases it) (auto simp: textLine_def validTarget_def btick_def)




subsection \<open>The embed address of an iframe\<close>

text \<open>
  The conversion of the \<^verbatim>\<open>iframe\<close> directive in words. \<open>firstVParam\<close> is the value of
  the first \<^verbatim>\<open>v=\<close> parameter that follows a \<^verbatim>\<open>?\<close> or a \<^verbatim>\<open>&\<close> and has a value: the text
  up to the next \<^verbatim>\<open>&\<close>. \<open>afterFirst\<close> is the text after the first occurrence of a
  marker, \<open>beforeFirst\<close> the text before it (all of the text when the marker does
  not occur).
\<close>

fun firstVParam :: \<open>string \<Rightarrow> string option\<close> where
  \<open>firstVParam [] = None\<close>
| \<open>firstVParam (q # s) =
     (if (q = CHR ''?'' \<or> q = CHR ''&'') \<and> prefix ''v='' s
         \<and> takeWhile (\<lambda>c. c \<noteq> CHR ''&'') (drop 2 s) \<noteq> []
      then Some (takeWhile (\<lambda>c. c \<noteq> CHR ''&'') (drop 2 s))
      else firstVParam s)\<close>

fun afterFirst :: \<open>string \<Rightarrow> string \<Rightarrow> string option\<close> where
  \<open>afterFirst sep [] = None\<close>
| \<open>afterFirst sep (x # xs) =
     (if prefix sep (x # xs) then Some (drop (length sep) (x # xs)) else afterFirst sep xs)\<close>

fun beforeFirst :: \<open>string \<Rightarrow> string \<Rightarrow> string\<close> where
  \<open>beforeFirst sep [] = []\<close>
| \<open>beforeFirst sep (x # xs) = (if prefix sep (x # xs) then [] else x # beforeFirst sep xs)\<close>

text \<open>The address that the \<^verbatim>\<open>iframe\<close> element gets. An address that contains
  \<^verbatim>\<open>youtube.com/watch\<close> becomes the embed address of its first \<^verbatim>\<open>v=\<close> parameter, and
  stays as it is when it has none. Any other address that contains \<^verbatim>\<open>youtu.be/\<close>,
  wherever that text stands in it, becomes the embed address of the text
  between the first \<^verbatim>\<open>youtu.be/\<close> and the next \<^verbatim>\<open>?\<close> or the next \<^verbatim>\<open>youtu.be/\<close>, and stays
  as it is when that text is empty. Every other address stays as it is.\<close>

definition embedAddress :: \<open>string \<Rightarrow> string\<close> where
  \<open>embedAddress url =
     (if strIncludes url ''youtube.com/watch'' then
        (case firstVParam url of
           Some v \<Rightarrow> ''https://www.youtube.com/embed/'' @ v
         | None \<Rightarrow> url)
      else
        (case afterFirst ''youtu.be/'' url of
           None \<Rightarrow> url
         | Some rest \<Rightarrow>
             (let v = takeWhile (\<lambda>c. c \<noteq> CHR ''?'') (beforeFirst ''youtu.be/'' rest)
              in if v \<noteq> [] then ''https://www.youtube.com/embed/'' @ v else url)))\<close>

lemma reMatchAt_reVParam:
  \<open>reMatchAt reVParam b s =
     (case s of
        [] \<Rightarrow> None
      | q # s' \<Rightarrow>
          if (q = CHR ''?'' \<or> q = CHR ''&'') \<and> prefix ''v='' s'
             \<and> takeWhile (\<lambda>c. c \<noteq> CHR ''&'') (drop 2 s') \<noteq> []
          then Some (3 + length (takeWhile (\<lambda>c. c \<noteq> CHR ''&'') (drop 2 s')),
                     (\<lambda>_. None)(1 \<mapsto> takeWhile (\<lambda>c. c \<noteq> CHR ''&'') (drop 2 s')))
          else None)\<close>
proof (cases s)
  case Nil
  then show ?thesis by (simp add: reMatchAt_def reVParam_def)
next
  case (Cons q s')
  let ?P = \<open>\<lambda>c. c \<noteq> CHR ''&''\<close>
  let ?vid = \<open>takeWhile ?P (drop 2 s')\<close>
  let ?rest = \<open>dropWhile ?P (drop 2 s')\<close>
  show ?thesis
  proof (cases \<open>(q = CHR ''?'' \<or> q = CHR ''&'') \<and> prefix ''v='' s' \<and> ?vid \<noteq> []\<close>)
    case True
    then have s': \<open>s' = ''v='' @ ?vid @ ?rest\<close>
      by (metis append_take_drop_id length_Cons list.size(3) numeral_2_eq_2 prefix_def append_eq_conv_conj takeWhile_dropWhile_id)
    have r: \<open>?rest = [] \<or> hd ?rest = CHR ''&''\<close>
      using hd_dropWhile [of ?P \<open>drop 2 s'\<close>] by auto
    have v: \<open>CHR ''&'' \<notin> set ?vid\<close>
      using set_takeWhileD [of \<open>CHR ''&''\<close> ?P \<open>drop 2 s'\<close>] by auto
    have \<open>reMatchAt reVParam b (q # ''v='' @ ?vid @ ?rest) = Some (3 + length ?vid, (\<lambda>_. None)(1 \<mapsto> ?vid))\<close>
      using True v r by (intro reVParam_match) auto
    then show ?thesis
      using True s' Cons by simp
  next
    case False
    have \<open>reMatchAt reVParam b (q # s') = None\<close>
    proof (cases \<open>(q = CHR ''?'' \<or> q = CHR ''&'') \<and> prefix ''v='' s'\<close>)
      case False
      then show ?thesis
        by (auto simp: reMatchAt_def reVParam_def)
    next
      case True
      with False have e: \<open>?vid = []\<close> by simp
      from True obtain u where u: \<open>s' = ''v='' @ u\<close> by (auto simp: prefix_def)
      with e have \<open>u = [] \<or> hd u = CHR ''&''\<close>
        by (cases u) (auto split: if_splits)
      then show ?thesis
        using True u by (cases u) (auto simp: reMatchAt_def reVParam_def NotCh_def)
    qed
    with False Cons show ?thesis by simp
  qed
qed

lemma reSearch_reVParam:
  \<open>map_option (\<lambda>(i, n, c). c) (reSearch reVParam b s)
     = map_option (\<lambda>v. (\<lambda>_. None)(1 \<mapsto> v)) (firstVParam s)\<close>
proof -
  define f :: \<open>string \<Rightarrow> caps\<close> where \<open>f = (\<lambda>v. (\<lambda>_. None)(1 \<mapsto> v))\<close>
  have \<open>map_option (\<lambda>(i, n, c). c) (reSearch reVParam b s) = map_option f (firstVParam s)\<close>
  proof (induction s arbitrary: b)
    case Nil
    then show ?case by (simp add: reMatchAt_reVParam)
  next
    case (Cons q s)
    let ?v = \<open>takeWhile (\<lambda>c. c \<noteq> CHR ''&'') (drop 2 s)\<close>
    show ?case
    proof (cases \<open>(q = CHR ''?'' \<or> q = CHR ''&'') \<and> prefix ''v='' s \<and> ?v \<noteq> []\<close>)
      case True
      then have \<open>reMatchAt reVParam b (q # s) = Some (3 + length ?v, f ?v)\<close>
        by (simp add: reMatchAt_reVParam f_def)
      then have \<open>reSearch reVParam b (q # s) = Some (0, 3 + length ?v, f ?v)\<close>
        by simp
      moreover from True have \<open>firstVParam (q # s) = Some ?v\<close> by simp
      ultimately show ?thesis by (simp del: reSearch.simps firstVParam.simps)
    next
      case False
      then have \<open>reMatchAt reVParam b (q # s) = None\<close>
        by (simp add: reMatchAt_reVParam)
      then have \<open>reSearch reVParam b (q # s)
                   = map_option (\<lambda>(i, n, c). (Suc i, n, c)) (reSearch reVParam (q # b) s)\<close>
        by simp
      then have e1: \<open>map_option (\<lambda>(i, n, c). c) (reSearch reVParam b (q # s))
                   = map_option (\<lambda>(i, n, c). c) (reSearch reVParam (q # b) s)\<close>
        by (simp add: option.map_comp comp_def case_prod_unfold)
      from False have fv: \<open>firstVParam (q # s) = firstVParam s\<close> by auto
      show ?thesis unfolding e1 fv by (rule Cons)
    qed
  qed
  then show ?thesis by (simp add: f_def)
qed

lemma reExec_reVParam:
  \<open>reExec reVParam url = map_option (\<lambda>v. (\<lambda>_. None)(1 \<mapsto> v)) (firstVParam url)\<close>
  unfolding reExec_def by (rule reSearch_reVParam)

lemma firstVParam_nonempty: \<open>firstVParam s = Some v \<Longrightarrow> v \<noteq> []\<close>
  by (induction s) (auto split: if_splits)

lemma splitAcc_first:
  assumes \<open>sep \<noteq> []\<close>
  shows \<open>splitAcc sep 0 cur s =
           (rev cur @ beforeFirst sep s)
           # (case afterFirst sep s of None \<Rightarrow> [] | Some r \<Rightarrow> splitAcc sep 0 [] r)\<close>
proof (induction s arbitrary: cur)
  case Nil
  then show ?case by simp
next
  case (Cons x xs)
  show ?case
  proof (cases \<open>prefix sep (x # xs)\<close>)
    case True
    then obtain ys where ys: \<open>x # xs = sep @ ys\<close> by (auto simp: prefix_def)
    have \<open>splitAcc sep 0 cur (sep @ ys) = rev cur # splitAcc sep 0 [] ys\<close>
      using assms by (rule splitAcc_at_separator)
    moreover have \<open>drop (length sep) (x # xs) = ys\<close> by (simp add: ys)
    ultimately have \<open>splitAcc sep 0 cur (x # xs)
        = rev cur # splitAcc sep 0 [] (drop (length sep) (x # xs))\<close>
      by (simp add: ys)
    with True show ?thesis
      by (simp del: splitAcc.simps)
  next
    case False
    with Cons [of \<open>x # cur\<close>] show ?thesis by simp
  qed
qed

lemma afterFirst_includes: \<open>sep \<noteq> [] \<Longrightarrow> strIncludes s sep \<longleftrightarrow> afterFirst sep s \<noteq> None\<close>
  by (induction s) (auto simp: strIncludes_def)

lemma hd_splitCh: \<open>hd (splitCh c s) = takeWhile (\<lambda>x. x \<noteq> c) s\<close>
proof (induction s)
  case Nil
  then show ?case by simp
next
  case (Cons x xs)
  show ?case
  proof (cases \<open>x = c\<close>)
    case True
    then show ?thesis by simp
  next
    case False
    from hd_splitCh_Cons [OF False, of xs] Cons False show ?thesis by simp
  qed
qed

lemma embedUrlOf_embedAddress: \<open>embedUrlOf url = embedAddress url\<close>
proof (cases \<open>strIncludes url ''youtube.com/watch''\<close>)
  case True
  show ?thesis
  proof (cases \<open>firstVParam url\<close>)
    case None
    with True show ?thesis
      by (simp add: embedUrlOf_def embedAddress_def reExec_reVParam)
  next
    case (Some v)
    with True firstVParam_nonempty [OF Some] show ?thesis
      by (simp add: embedUrlOf_def embedAddress_def reExec_reVParam capText_def embedPrefix_def)
  qed
next
  case False
  define sep where \<open>sep = ''youtu.be/''\<close>
  have sep: \<open>sep \<noteq> []\<close> by (simp add: sep_def)
  show ?thesis
  proof (cases \<open>afterFirst sep url\<close>)
    case None
    then have \<open>\<not> strIncludes url sep\<close> using sep by (simp add: afterFirst_includes)
    with False None show ?thesis
      by (simp add: embedUrlOf_def embedAddress_def sep_def)
  next
    case (Some r)
    then have i: \<open>strIncludes url sep\<close> using sep by (simp add: afterFirst_includes)
    have \<open>splitStr sep url
            = beforeFirst sep url # beforeFirst sep r
              # (case afterFirst sep r of None \<Rightarrow> [] | Some r' \<Rightarrow> splitAcc sep 0 [] r')\<close>
      unfolding splitStr_def
      by (subst splitAcc_first [OF sep], simp add: Some, subst splitAcc_first [OF sep], simp)
    with False i Some show ?thesis
      by (simp add: embedUrlOf_def embedAddress_def sep_def [symmetric] hd_splitCh Let_def embedPrefix_def)
  qed
qed

text \<open>
  Claim C10, as the code has it. The \<^verbatim>\<open>iframe\<close> directive emits its title argument as
  the \<^verbatim>\<open>src\<close> of the \<^verbatim>\<open>iframe\<close> element after the conversion \<open>embedAddress\<close>, for every
  argument, every list of option lines and every body: the address of a
  YouTube watch page with a \<^verbatim>\<open>v=\<close> parameter becomes
  \<^verbatim>\<open>https://www.youtube.com/embed/\<close> followed by the value of that parameter, and an
  address with \<^verbatim>\<open>youtu.be/\<close> becomes the same for the text after \<^verbatim>\<open>youtu.be/\<close>. The test
  for the second form is that the text \<^verbatim>\<open>youtu.be/\<close> occurs somewhere in the
  address, so that addresses of other hosts are converted too when they contain
  it; only an address with neither \<^verbatim>\<open>youtube.com/watch\<close> nor \<^verbatim>\<open>youtu.be/\<close>, a watch
  address without a \<^verbatim>\<open>v=\<close> parameter and an address with nothing after \<^verbatim>\<open>youtu.be/\<close> are
  emitted unchanged.
\<close>

theorem C10_iframe_src_is_embed_address:
  \<open>generateDirectiveHtml ''iframe'' url opts body =
      ''<figure class="myst-iframe"'' @ idAttrOf (getOpt '':label:'' opts []) @ ''><iframe src="''
        @ embedAddress url @ ''" width="'' @ getOpt '':width:'' opts ''100%''
        @ ''" height="400" title="'' @ getOpt '':title:'' opts ''Embedded content''
        @ ''" frameborder="0" allow="accelerometer; autoplay; clipboard-write; encrypted-media; gyroscope; picture-in-picture" allowfullscreen loading="lazy"></iframe>''
        @ (if body \<noteq> [] then ''<figcaption>'' @ body @ ''</figcaption>'' else []) @ ''</figure>''\<close>
  by (simp add: generateDirectiveHtml_def admonitionNames_def prfNames_def iframeHtml_def Let_def
      embedUrlOf_embedAddress)

text \<open>Instances: a watch address whose \<^verbatim>\<open>v=\<close> parameter is not the first parameter, a
  short address, a watch address without the parameter, and the address of a
  video player of another site.\<close>

lemma embedAddress_examples:
  \<open>embedAddress ''https://www.youtube.com/watch?rev=2&v=dQw4w9WgXcQ&t=42'' = ''https://www.youtube.com/embed/dQw4w9WgXcQ''\<close>
  \<open>embedAddress ''https://youtu.be/dQw4w9WgXcQ?t=42'' = ''https://www.youtube.com/embed/dQw4w9WgXcQ''\<close>
  \<open>embedAddress ''https://www.youtube.com/watch?list=PL1'' = ''https://www.youtube.com/watch?list=PL1''\<close>
  \<open>embedAddress ''https://player.vimeo.com/video/76979871'' = ''https://player.vimeo.com/video/76979871''\<close>
  by code_simp+

text \<open>An address that is neither a YouTube watch address nor a \<^verbatim>\<open>youtu.be\<close> short
  address, and is not emitted unchanged: the host is \<^verbatim>\<open>notyoutu.be\<close>. The document is
  one \<^verbatim>\<open>iframe\<close> directive.\<close>

theorem C10_other_address_is_converted:
  \<open>parseMystDirectives ('':::{iframe} https://notyoutu.be/abc'' @ nl @ '':::'')
     = ''<figure class="myst-iframe"><iframe src="https://www.youtube.com/embed/abc" width="100%" height="400" title="Embedded content" frameborder="0" allow="accelerometer; autoplay; clipboard-write; encrypted-media; gyroscope; picture-in-picture" allowfullscreen loading="lazy"></iframe></figure>''\<close>
  by code_simp

text \<open>The theorem at a watch address whose \<^verbatim>\<open>v=\<close> parameter is the second parameter, with
  no options and no body.\<close>

theorem C10_witness:
  \<open>generateDirectiveHtml ''iframe'' ''https://www.youtube.com/watch?rev=2&v=dQw4w9WgXcQ&t=42'' [] []
     = ''<figure class="myst-iframe"><iframe src="https://www.youtube.com/embed/dQw4w9WgXcQ" width="100%" height="400" title="Embedded content" frameborder="0" allow="accelerometer; autoplay; clipboard-write; encrypted-media; gyroscope; picture-in-picture" allowfullscreen loading="lazy"></iframe></figure>''\<close>
proof -
  let ?u = \<open>''https://www.youtube.com/watch?rev=2&v=dQw4w9WgXcQ&t=42''\<close>
  have e: \<open>embedAddress ?u = ''https://www.youtube.com/embed/dQw4w9WgXcQ''\<close> by code_simp
  have i: \<open>idAttrOf (getOpt '':label:'' [] []) = []\<close> by code_simp
  have w: \<open>getOpt '':width:'' [] ''100%'' = ''100%''\<close> by code_simp
  have t: \<open>getOpt '':title:'' [] ''Embedded content'' = ''Embedded content''\<close> by code_simp
  show ?thesis
    unfolding C10_iframe_src_is_embed_address [of ?u \<open>[]\<close> \<open>[]\<close>] e i w t by simp
qed

end
